theory Spec2Isabelle
  imports Main
begin

section \<open>Data model (App.tsx, lines 21-35)\<close>

text \<open>
  JavaScript strings are modelled as \<^typ>\<open>string\<close>, numbers that hold timestamps as
  \<^typ>\<open>int\<close> (epoch milliseconds). The field \<open>id\<close> of both interfaces and the field
  \<open>type\<close> of a block carry a suffix, since one theory cannot hold two records with a
  field of the same name.
\<close>

datatype BlockType = Text | Heading | BulletedList

record Block =
  id_block :: string
  type_block :: BlockType
  content :: string

record Note =
  id_note :: string
  title :: string
  blocks :: "Block list"
  created :: int
  updated :: int

section \<open>JavaScript array primitives used by the handlers\<close>

datatype js_error = TypeError | SyntaxError

text \<open>\<open>Array.prototype.findIndex\<close>: the first index whose element satisfies the
  predicate, \<open>-1\<close> when there is none.\<close>

fun findIndex :: "('a \<Rightarrow> bool) \<Rightarrow> 'a list \<Rightarrow> int" where
  "findIndex p [] = - 1"
| "findIndex p (x # xs) =
     (if p x then 0
      else (let i = findIndex p xs in if i < 0 then - 1 else i + 1))"

text \<open>\<open>xs[i]\<close>: the element, or \<open>undefined\<close> (here \<open>None\<close>) outside \<open>0 .. length - 1\<close>.\<close>

definition at_index :: "'a list \<Rightarrow> int \<Rightarrow> 'a option" where
  "at_index xs i = (if 0 \<le> i \<and> i < int (length xs) then Some (xs ! nat i) else None)"

text \<open>\<open>x.id\<close> for a note read from an array: reading a property of \<open>undefined\<close> throws
  a TypeError.\<close>

definition get_id :: "Note option \<Rightarrow> js_error + string" where
  "get_id x = (case x of None \<Rightarrow> Inl TypeError | Some n \<Rightarrow> Inr (id_note n))"

section \<open>The note store (component App, lines 84-125)\<close>

record app_state =
  "notes" :: "Note list"
  selectedId :: "string option"

text \<open>\<open>newNote\<close> (lines 53-72). The three results of \<open>Math.random().toString(36).slice(2)\<close>
  and the two readings of \<open>Date.now()\<close> are parameters, in the order of evaluation.\<close>

definition newNote :: "string \<Rightarrow> string \<Rightarrow> string \<Rightarrow> int \<Rightarrow> int \<Rightarrow> Note" where
  "newNote r1 r2 r3 t1 t2 =
     \<lparr> id_note = r1,
       title = ''Untitled'',
       blocks =
         [ \<lparr> id_block = r2, type_block = Heading, content = ''New Note'' \<rparr>,
           \<lparr> id_block = r3, type_block = Text, content = '''' \<rparr> ],
       created = t1,
       updated = t2 \<rparr>"

text \<open>\<open>handleAddNote\<close> (lines 103-107).\<close>

definition handleAddNote ::
  "string \<Rightarrow> string \<Rightarrow> string \<Rightarrow> int \<Rightarrow> int \<Rightarrow> app_state \<Rightarrow> app_state" where
  "handleAddNote r1 r2 r3 t1 t2 st =
     (let n = newNote r1 r2 r3 t1 t2
      in st\<lparr> notes := n # notes st, selectedId := Some (id_note n) \<rparr>)"

text \<open>\<open>handleDeleteNote\<close> (lines 109-119). The answer of \<open>window.confirm\<close> is the first
  parameter. An exception raised while the fallback selection is computed leaves the
  handler before either setter runs.\<close>

definition handleDeleteNote :: "bool \<Rightarrow> string \<Rightarrow> app_state \<Rightarrow> js_error + app_state" where
  "handleDeleteNote confirmed ident st =
     (if \<not> confirmed then Inr st
      else
        let idx = findIndex (\<lambda>n. id_note n = ident) (notes st);
            nextId =
              (if length (notes st) > 1
               then (if idx = 0
                     then map_sum (\<lambda>e. e) Some (get_id (at_index (notes st) 1))
                     else map_sum (\<lambda>e. e) Some (get_id (at_index (notes st) (idx - 1))))
               else Inr None)
        in case nextId of
             Inl e \<Rightarrow> Inl e
           | Inr nid \<Rightarrow>
               Inr (st\<lparr> notes := filter (\<lambda>n. id_note n \<noteq> ident) (notes st),
                        selectedId := nid \<rparr>))"

text \<open>\<open>handleUpdateNote\<close> (lines 121-125): the updater given to \<open>setNotes\<close>, applied to the
  stored collection. The reading of \<open>Date.now()\<close> is the second parameter.\<close>

definition handleUpdateNote :: "Note \<Rightarrow> int \<Rightarrow> app_state \<Rightarrow> app_state" where
  "handleUpdateNote snapshot now st =
     st\<lparr> notes :=
           map (\<lambda>n. if id_note n = id_note snapshot then snapshot\<lparr> updated := now \<rparr> else n)
             (notes st) \<rparr>"

text \<open>\<open>selectedNote\<close> (line 101): \<open>notes.find((n) => n.id === selectedId) || null\<close>.\<close>

definition selectedNote :: "app_state \<Rightarrow> Note option" where
  "selectedNote st =
     (case selectedId st of
        None \<Rightarrow> None
      | Some s \<Rightarrow> find (\<lambda>n. id_note n = s) (notes st))"

section \<open>The block editor (component NoteEditor, lines 399-499)\<close>

text \<open>The component's prop \<open>note\<close> and its two state variables \<open>title\<close> and \<open>blocks\<close>.\<close>

record editor_state =
  note_prop :: Note
  title_state :: string
  blocks_state :: "Block list"

text \<open>The fields of a keyboard event that \<open>handleBlockKeyDown\<close> reads.\<close>

record KeyboardEvent =
  key :: string
  shiftKey :: bool

text \<open>\<open>handleBlockInput\<close> (lines 423-430): the updater given to \<open>setBlocks\<close>.\<close>

definition handleBlockInput :: "string \<Rightarrow> string \<Rightarrow> Block list \<Rightarrow> Block list" where
  "handleBlockInput ident text prev =
     map (\<lambda>b. if id_block b = ident then b\<lparr> content := text \<rparr> else b) prev"

text \<open>The three updaters that \<open>handleBlockKeyDown\<close> gives to \<open>setBlocks\<close>, under the names
  the specification gives them: lines 445-449, line 461 and lines 472-486.
  \<open>prev.slice(0, idx + 1)\<close> and \<open>prev.slice(idx + 1)\<close> are \<open>take\<close> and \<open>drop\<close>, the index
  being the position of a rendered block and so a natural number.\<close>

definition insertBlockAfter :: "nat \<Rightarrow> Block \<Rightarrow> Block list \<Rightarrow> Block list" where
  "insertBlockAfter idx newBlock prev =
     take (idx + 1) prev @ [newBlock] @ drop (idx + 1) prev"

definition removeBlock :: "Block \<Rightarrow> Block list \<Rightarrow> Block list" where
  "removeBlock block prev = filter (\<lambda>b. id_block b \<noteq> id_block block) prev"

definition cycleBlockType :: "Block \<Rightarrow> Block list \<Rightarrow> Block list" where
  "cycleBlockType block prev =
     map (\<lambda>b. if id_block b = id_block block
              then b\<lparr> type_block :=
                        (if type_block b = Text then Heading
                         else if type_block b = Heading then BulletedList
                         else Text) \<rparr>
              else b) prev"

text \<open>\<open>handleBlockKeyDown\<close> (lines 432-488): three conditionals in sequence. Their
  conditions read the event, the rendered block and the rendered list \<open>blocks\<close>; their
  updaters are applied one after the other to the state, which is that same list. The
  fourth parameter is the result of \<open>Math.random().toString(36).slice(2)\<close>.\<close>

definition handleBlockKeyDown ::
  "KeyboardEvent \<Rightarrow> nat \<Rightarrow> Block \<Rightarrow> string \<Rightarrow> Block list \<Rightarrow> Block list" where
  "handleBlockKeyDown e idx block r blocks0 =
     (let s1 = (if key e = ''Enter'' \<and> \<not> shiftKey e
                then insertBlockAfter idx
                       \<lparr> id_block = r, type_block = Text, content = '''' \<rparr> blocks0
                else blocks0);
          s2 = (if key e = ''Backspace'' \<and> content block = '''' \<and> length blocks0 > 1
                then removeBlock block s1
                else s1);
          s3 = (if key e = ''/'' \<and> type_block block = Text
                then cycleBlockType block s2
                else s2)
      in s3)"

text \<open>A paste event: \<open>clipboardData\<close> maps a format to the data held in that format;
  \<open>getData\<close> gives the empty string for a format the clipboard does not hold.\<close>

record ClipboardEvent =
  clipboardData :: "string \<rightharpoonup> string"

definition getData :: "ClipboardEvent \<Rightarrow> string \<Rightarrow> string" where
  "getData e format = (case clipboardData e format of None \<Rightarrow> '''' | Some d \<Rightarrow> d)"

text \<open>The selection inside the focused block, as offsets into its text, and what
  \<open>document.execCommand("insertText", false, text)\<close> does to that text: the selected
  range is replaced by the inserted text.\<close>

record Selection =
  sel_start :: nat
  sel_end :: nat

definition insertText :: "string \<Rightarrow> Selection \<Rightarrow> string \<Rightarrow> string" where
  "insertText innerText sel text =
     take (sel_start sel) innerText @ text @ drop (sel_end sel) innerText"

text \<open>\<open>handleBlockPaste\<close> (lines 490-499). The default paste is prevented; the command
  \<open>insertText\<close> changes the text of the element and fires its \<open>input\<close> event, whose
  handler (line 527) stores the element's whole text; then line 498 stores the
  clipboard text. The third and fourth parameters are the text of the element and the
  selection in it when the event arrives.\<close>

definition handleBlockPaste ::
  "ClipboardEvent \<Rightarrow> string \<Rightarrow> string \<Rightarrow> Selection \<Rightarrow> Block list \<Rightarrow> Block list" where
  "handleBlockPaste e ident innerText sel prev =
     (let text = getData e ''text/plain'';
          s1 = handleBlockInput ident (insertText innerText sel text) prev;
          s2 = handleBlockInput ident text s1
      in s2)"

text \<open>The events of the editor and the state change each one makes.\<close>

datatype editor_event =
    TitleChange string
  | BlockInput string string
  | BlockKeyDown KeyboardEvent nat Block string
  | BlockPaste ClipboardEvent string string Selection

fun editor_step :: "editor_event \<Rightarrow> editor_state \<Rightarrow> editor_state" where
  "editor_step (TitleChange t) ed = ed\<lparr> title_state := t \<rparr>"
| "editor_step (BlockInput ident text) ed =
     ed\<lparr> blocks_state := handleBlockInput ident text (blocks_state ed) \<rparr>"
| "editor_step (BlockKeyDown e idx block r) ed =
     ed\<lparr> blocks_state := handleBlockKeyDown e idx block r (blocks_state ed) \<rparr>"
| "editor_step (BlockPaste e ident innerText sel) ed =
     ed\<lparr> blocks_state := handleBlockPaste e ident innerText sel (blocks_state ed) \<rparr>"

section \<open>JSON texts: \<open>JSON.stringify\<close> and \<open>JSON.parse\<close>\<close>

text \<open>
  The values that \<open>JSON.parse\<close> builds. A number written without fraction and exponent
  is an integer, \<open>JNumber\<close>; a number written with one of them is kept as its text,
  \<open>JDouble\<close>, its floating-point value being outside this model. An object is the list
  of its properties in the order of their creation.

  Texts are \<^typ>\<open>string\<close>s of 8-bit characters: \<open>CHR 0x22\<close> is the double quote and
  \<open>CHR 0x5C\<close> the backslash. An escape \<open>\uXXXX\<close> gives the character of that code
  modulo 256.
\<close>

datatype json =
    JNull
  | JBool bool
  | JNumber int
  | JDouble string
  | JString string
  | JArray "json list"
  | JObject "(string \<times> json) list"

subsection \<open>\<open>JSON.stringify\<close> (without indentation)\<close>

text \<open>An integer is written in decimal digits, with a minus sign when it is negative, as
  JavaScript writes the integers below \<open>10^21\<close> in absolute value; the timestamps of the
  notes are such integers.\<close>

fun show_nat :: "nat \<Rightarrow> string" where
  "show_nat n =
     (if n < 10 then [char_of (48 + n)]
      else show_nat (n div 10) @ [char_of (48 + n mod 10)])"

declare show_nat.simps [simp del]

definition show_int :: "int \<Rightarrow> string" where
  "show_int i = (if i < 0 then CHR ''-'' # show_nat (nat (- i)) else show_nat (nat i))"

definition hex_char :: "nat \<Rightarrow> char" where
  "hex_char n = (if n < 10 then char_of (48 + n) else char_of (87 + n))"

text \<open>The quote and the backslash are escaped with a backslash, the control characters
  below \<open>0x20\<close> by their short form or as \<open>\u00XX\<close>; every other character stands for
  itself.\<close>

definition escape_char :: "char \<Rightarrow> string" where
  "escape_char c =
     (if c = CHR 0x22 then [CHR 0x5C, CHR 0x22]
      else if c = CHR 0x5C then [CHR 0x5C, CHR 0x5C]
      else if c = CHR 0x08 then [CHR 0x5C, CHR ''b'']
      else if c = CHR 0x0C then [CHR 0x5C, CHR ''f'']
      else if c = CHR 0x0A then [CHR 0x5C, CHR ''n'']
      else if c = CHR 0x0D then [CHR 0x5C, CHR ''r'']
      else if c = CHR 0x09 then [CHR 0x5C, CHR ''t'']
      else if (of_char c :: nat) < 32
      then [CHR 0x5C, CHR ''u'', CHR ''0'', CHR ''0'',
            hex_char (of_char c div 16), hex_char (of_char c mod 16)]
      else [c])"

definition quote_string :: "string \<Rightarrow> string" where
  "quote_string s = CHR 0x22 # concat (map escape_char s) @ [CHR 0x22]"

fun join_comma :: "string list \<Rightarrow> string" where
  "join_comma [] = []"
| "join_comma [x] = x"
| "join_comma (x # y # ys) = x @ CHR '','' # join_comma (y # ys)"

fun JSON_stringify :: "json \<Rightarrow> string" where
  "JSON_stringify JNull = ''null''"
| "JSON_stringify (JBool b) = (if b then ''true'' else ''false'')"
| "JSON_stringify (JNumber i) = show_int i"
| "JSON_stringify (JDouble s) = s"
| "JSON_stringify (JString s) = quote_string s"
| "JSON_stringify (JArray vs) = CHR ''['' # join_comma (map JSON_stringify vs) @ '']''"
| "JSON_stringify (JObject ms) =
     CHR ''{'' # join_comma (map (\<lambda>(k, v). quote_string k @ CHR '':'' # JSON_stringify v) ms)
       @ ''}''"

subsection \<open>\<open>JSON.parse\<close>\<close>

definition is_ws :: "char \<Rightarrow> bool" where
  "is_ws c = (c = CHR '' '' \<or> c = CHR 0x09 \<or> c = CHR 0x0A \<or> c = CHR 0x0D)"

definition skip_ws :: "string \<Rightarrow> string" where
  "skip_ws cs = dropWhile is_ws cs"

definition is_digit :: "char \<Rightarrow> bool" where
  "is_digit c = (48 \<le> (of_char c :: nat) \<and> (of_char c :: nat) \<le> 57)"

definition digit_val :: "char \<Rightarrow> nat" where
  "digit_val c = of_char c - 48"

definition nat_of_digits :: "string \<Rightarrow> nat" where
  "nat_of_digits ds = foldl (\<lambda>a c. 10 * a + digit_val c) 0 ds"

definition hex_val :: "char \<Rightarrow> nat option" where
  "hex_val c =
     (let n = (of_char c :: nat)
      in if 48 \<le> n \<and> n \<le> 57 then Some (n - 48)
         else if 97 \<le> n \<and> n \<le> 102 then Some (n - 87)
         else if 65 \<le> n \<and> n \<le> 70 then Some (n - 55)
         else None)"

definition unescape :: "char \<Rightarrow> char option" where
  "unescape e =
     (if e = CHR 0x22 then Some (CHR 0x22)
      else if e = CHR 0x5C then Some (CHR 0x5C)
      else if e = CHR ''/'' then Some (CHR ''/'')
      else if e = CHR ''b'' then Some (CHR 0x08)
      else if e = CHR ''f'' then Some (CHR 0x0C)
      else if e = CHR ''n'' then Some (CHR 0x0A)
      else if e = CHR ''r'' then Some (CHR 0x0D)
      else if e = CHR ''t'' then Some (CHR 0x09)
      else None)"

definition hex4 :: "char \<Rightarrow> char \<Rightarrow> char \<Rightarrow> char \<Rightarrow> char option" where
  "hex4 h1 h2 h3 h4 =
     (case hex_val h1 of None \<Rightarrow> None | Some a \<Rightarrow>
      case hex_val h2 of None \<Rightarrow> None | Some b \<Rightarrow>
      case hex_val h3 of None \<Rightarrow> None | Some c \<Rightarrow>
      case hex_val h4 of None \<Rightarrow> None | Some d \<Rightarrow>
        Some (char_of (((a * 16 + b) * 16 + c) * 16 + d)))"

definition cons_char :: "char \<Rightarrow> (string \<times> string) option \<Rightarrow> (string \<times> string) option" where
  "cons_char c r = (case r of None \<Rightarrow> None | Some (s, rest) \<Rightarrow> Some (c # s, rest))"

text \<open>The characters of a string after its opening quote, up to the closing quote:
  the string they denote and the text after the closing quote.\<close>

fun parse_chars :: "string \<Rightarrow> (string \<times> string) option" where
  "parse_chars [] = None"
| "parse_chars (c # cs) =
     (if c = CHR 0x22 then Some ([], cs)
      else if c = CHR 0x5C then
        (case cs of
           [] \<Rightarrow> None
         | e # r \<Rightarrow>
             if e = CHR ''u'' then
               (case r of
                  h1 # h2 # h3 # h4 # r' \<Rightarrow>
                    (case hex4 h1 h2 h3 h4 of
                       None \<Rightarrow> None
                     | Some ch \<Rightarrow> cons_char ch (parse_chars r'))
                | _ \<Rightarrow> None)
             else
               (case unescape e of
                  None \<Rightarrow> None
                | Some ch \<Rightarrow> cons_char ch (parse_chars r)))
      else if (of_char c :: nat) < 32 then None
      else cons_char c (parse_chars cs))"

text \<open>A number: an optional minus sign, an integer part without a leading zero, an
  optional fraction and an optional exponent.\<close>

definition parse_fraction :: "string \<Rightarrow> (string \<times> string) option" where
  "parse_fraction cs =
     (case cs of
        [] \<Rightarrow> Some ([], cs)
      | c # r \<Rightarrow>
          if c = CHR ''.'' then
            (if takeWhile is_digit r = [] then None
             else Some (c # takeWhile is_digit r, dropWhile is_digit r))
          else Some ([], cs))"

definition parse_exponent :: "string \<Rightarrow> (string \<times> string) option" where
  "parse_exponent cs =
     (case cs of
        [] \<Rightarrow> Some ([], cs)
      | c # r \<Rightarrow>
          if c = CHR ''e'' \<or> c = CHR ''E'' then
            (let (sign, r') =
                   (case r of
                      [] \<Rightarrow> ([], r)
                    | s # t \<Rightarrow> if s = CHR ''+'' \<or> s = CHR ''-'' then ([s], t) else ([], r))
             in if takeWhile is_digit r' = [] then None
                else Some (c # sign @ takeWhile is_digit r', dropWhile is_digit r'))
          else Some ([], cs))"

definition parse_int_part :: "string \<Rightarrow> (string \<times> string) option" where
  "parse_int_part cs =
     (case cs of
        [] \<Rightarrow> None
      | d # r \<Rightarrow>
          if d = CHR ''0'' then Some ([d], r)
          else if is_digit d then Some (d # takeWhile is_digit r, dropWhile is_digit r)
          else None)"

definition parse_number :: "string \<Rightarrow> (json \<times> string) option" where
  "parse_number cs =
     (let (neg, cs1) = (case cs of [] \<Rightarrow> (False, cs)
                        | c # r \<Rightarrow> if c = CHR ''-'' then (True, r) else (False, cs))
      in case parse_int_part cs1 of
           None \<Rightarrow> None
         | Some (ds, cs2) \<Rightarrow>
             (case parse_fraction cs2 of
                None \<Rightarrow> None
              | Some (fr, cs3) \<Rightarrow>
                  (case parse_exponent cs3 of
                     None \<Rightarrow> None
                   | Some (ex, cs4) \<Rightarrow>
                       if fr = [] \<and> ex = []
                       then Some (JNumber (if neg then - int (nat_of_digits ds)
                                           else int (nat_of_digits ds)), cs4)
                       else Some (JDouble ((if neg then ''-'' else []) @ ds @ fr @ ex), cs4))))"

definition strip_prefix :: "string \<Rightarrow> string \<Rightarrow> string option" where
  "strip_prefix p cs = (if take (length p) cs = p then Some (drop (length p) cs) else None)"

text \<open>Creating the property \<open>k\<close> of an object: a property that exists keeps its place
  and takes the new value, a new one comes last. (The precedence that JavaScript gives
  to keys that are array indices, when it enumerates, is not modelled.)\<close>

fun set_property :: "string \<Rightarrow> json \<Rightarrow> (string \<times> json) list \<Rightarrow> (string \<times> json) list" where
  "set_property k v [] = [(k, v)]"
| "set_property k v (p # ps) =
     (if fst p = k then (k, v) # ps else p # set_property k v ps)"

definition make_object :: "(string \<times> json) list \<Rightarrow> (string \<times> json) list" where
  "make_object ms = foldl (\<lambda>obj (k, v). set_property k v obj) [] ms"

text \<open>The recursive descent. The first argument bounds the depth of the calls; the
  result is the same for every bound from the length of the text on (lemma
  \<open>parse_value_fuel\<close> below), so no text is rejected for want of depth.
  \<open>parse_elements\<close> reads the elements of an array after its opening bracket,
  \<open>parse_members\<close> the members of an object after its opening brace, each up to the
  closing one.\<close>

fun parse_value :: "nat \<Rightarrow> string \<Rightarrow> (json \<times> string) option"
  and parse_elements :: "nat \<Rightarrow> string \<Rightarrow> (json list \<times> string) option"
  and parse_members :: "nat \<Rightarrow> string \<Rightarrow> ((string \<times> json) list \<times> string) option"
where
  "parse_value 0 cs = None"
| "parse_value (Suc f) cs =
     (case skip_ws cs of
        [] \<Rightarrow> None
      | c # r \<Rightarrow>
          if c = CHR ''{'' then
            (case skip_ws r of
               [] \<Rightarrow> None
             | d # r' \<Rightarrow>
                 if d = CHR ''}'' then Some (JObject [], r')
                 else (case parse_members f r of
                         None \<Rightarrow> None
                       | Some (ms, rest) \<Rightarrow> Some (JObject (make_object ms), rest)))
          else if c = CHR ''['' then
            (case skip_ws r of
               [] \<Rightarrow> None
             | d # r' \<Rightarrow>
                 if d = CHR '']'' then Some (JArray [], r')
                 else (case parse_elements f r of
                         None \<Rightarrow> None
                       | Some (vs, rest) \<Rightarrow> Some (JArray vs, rest)))
          else if c = CHR 0x22 then
            (case parse_chars r of
               None \<Rightarrow> None
             | Some (s, rest) \<Rightarrow> Some (JString s, rest))
          else if c = CHR ''t'' then
            (case strip_prefix ''rue'' r of None \<Rightarrow> None | Some rest \<Rightarrow> Some (JBool True, rest))
          else if c = CHR ''f'' then
            (case strip_prefix ''alse'' r of None \<Rightarrow> None | Some rest \<Rightarrow> Some (JBool False, rest))
          else if c = CHR ''n'' then
            (case strip_prefix ''ull'' r of None \<Rightarrow> None | Some rest \<Rightarrow> Some (JNull, rest))
          else parse_number (c # r))"
| "parse_elements 0 cs = None"
| "parse_elements (Suc f) cs =
     (case parse_value f cs of
        None \<Rightarrow> None
      | Some (v, r) \<Rightarrow>
          (case skip_ws r of
             [] \<Rightarrow> None
           | c # r' \<Rightarrow>
               if c = CHR '','' then
                 (case parse_elements f r' of
                    None \<Rightarrow> None
                  | Some (vs, rest) \<Rightarrow> Some (v # vs, rest))
               else if c = CHR '']'' then Some ([v], r')
               else None))"
| "parse_members 0 cs = None"
| "parse_members (Suc f) cs =
     (case skip_ws cs of
        [] \<Rightarrow> None
      | q # r \<Rightarrow>
          if q = CHR 0x22 then
            (case parse_chars r of
               None \<Rightarrow> None
             | Some (k, r1) \<Rightarrow>
                 (case skip_ws r1 of
                    [] \<Rightarrow> None
                  | c # r2 \<Rightarrow>
                      if c = CHR '':'' then
                        (case parse_value f r2 of
                           None \<Rightarrow> None
                         | Some (v, r3) \<Rightarrow>
                             (case skip_ws r3 of
                                [] \<Rightarrow> None
                              | d # r4 \<Rightarrow>
                                  if d = CHR '','' then
                                    (case parse_members f r4 of
                                       None \<Rightarrow> None
                                     | Some (ms, rest) \<Rightarrow> Some ((k, v) # ms, rest))
                                  else if d = CHR ''}'' then Some ([(k, v)], r4)
                                  else None))
                      else None))
          else None)"

text \<open>\<open>JSON.parse\<close>: one value, with white space around it and nothing else; any other
  text throws a SyntaxError.\<close>

definition JSON_parse :: "string \<Rightarrow> js_error + json" where
  "JSON_parse text =
     (case parse_value (length text) text of
        None \<Rightarrow> Inl SyntaxError
      | Some (v, rest) \<Rightarrow> if skip_ws rest = [] then Inr v else Inl SyntaxError)"

section \<open>Persistence (lines 37-51)\<close>

text \<open>The objects of the program as JavaScript values, their properties in the order in
  which \<open>newNote\<close> and the spread expressions of the handlers create them.\<close>

definition js_BlockType :: "BlockType \<Rightarrow> json" where
  "js_BlockType t =
     JString (case t of Text \<Rightarrow> ''text'' | Heading \<Rightarrow> ''heading''
              | BulletedList \<Rightarrow> ''bulleted-list'')"

definition js_Block :: "Block \<Rightarrow> json" where
  "js_Block b =
     JObject [(''id'', JString (id_block b)), (''type'', js_BlockType (type_block b)),
              (''content'', JString (content b))]"

definition js_blocks :: "Block list \<Rightarrow> json" where
  "js_blocks bs = JArray (map js_Block bs)"

definition js_Note :: "Note \<Rightarrow> json" where
  "js_Note n =
     JObject [(''id'', JString (id_note n)), (''title'', JString (title n)),
              (''blocks'', js_blocks (blocks n)), (''created'', JNumber (created n)),
              (''updated'', JNumber (updated n))]"

definition js_notes :: "Note list \<Rightarrow> json" where
  "js_notes ns = JArray (map js_Note ns)"

text \<open>\<open>localStorage\<close>: a map from keys to strings; \<open>getItem\<close> gives \<open>null\<close> (here
  \<open>None\<close>) for a key that is not there.\<close>

type_synonym storage = "string \<rightharpoonup> string"

definition LS_KEY :: string where
  "LS_KEY = ''notion-inspired-notes-v1''"

definition getItem :: "storage \<Rightarrow> string \<Rightarrow> string option" where
  "getItem ls k = ls k"

definition setItem :: "storage \<Rightarrow> string \<Rightarrow> string \<Rightarrow> storage" where
  "setItem ls k v = ls(k \<mapsto> v)"

text \<open>\<open>loadNotes\<close> (lines 39-47). The inner expression is the body of the \<open>try\<close> block,
  the outer case is the \<open>catch\<close>. The function is typed \<open>Note[]\<close> but returns what
  \<open>JSON.parse\<close> returns.\<close>

definition loadNotes :: "storage \<Rightarrow> js_error + json" where
  "loadNotes ls =
     (case (case getItem ls LS_KEY of
              None \<Rightarrow> Inr (JArray [])
            | Some raw \<Rightarrow> if raw = [] then Inr (JArray []) else JSON_parse raw)
      of Inl e \<Rightarrow> Inr (JArray [])
       | Inr v \<Rightarrow> Inr v)"

text \<open>\<open>saveNotes\<close> (lines 49-51).\<close>

definition saveNotes :: "Note list \<Rightarrow> storage \<Rightarrow> storage" where
  "saveNotes ns ls = setItem ls LS_KEY (JSON_stringify (js_notes ns))"


section \<open>Notions used in the proofs\<close>

text \<open>A text that may follow a value inside an array or an object, or end the whole
  text: it is empty or starts with a comma or a closing bracket or brace.\<close>

definition delimited :: "string \<Rightarrow> bool" where
  "delimited rest =
     (case rest of [] \<Rightarrow> True
      | c # _ \<Rightarrow> c = CHR '','' \<or> c = CHR '']'' \<or> c = CHR ''}'')"

text \<open>The values that \<open>JSON.stringify\<close> writes and \<open>JSON.parse\<close> reads back as they
  were: no number kept as a text, and no object with two properties of one name.\<close>

fun plain_json :: "json \<Rightarrow> bool" where
  "plain_json (JDouble s) = False"
| "plain_json (JArray vs) = list_all plain_json vs"
| "plain_json (JObject ms) = (distinct (map fst ms) \<and> list_all (\<lambda>m. plain_json (snd m)) ms)"
| "plain_json v = True"

section \<open>Properties of the note store\<close>

lemma findIndex_first:
  assumes "i < length xs" "p (xs ! i)" "\<forall>j<i. \<not> p (xs ! j)"
  shows "findIndex p xs = int i"
  using assms
proof (induction xs arbitrary: i)
  case Nil
  then show ?case by simp
next
  case (Cons x xs)
  show ?case
  proof (cases i)
    case 0
    with Cons.prems show ?thesis by simp
  next
    case (Suc k)
    with Cons.prems have "\<not> p x" by auto
    moreover from Suc Cons.prems have "findIndex p xs = int k"
      by (intro Cons.IH) auto
    ultimately show ?thesis using Suc by (simp add: Let_def)
  qed
qed

lemma findIndex_absent:
  "(\<forall>x\<in>set xs. \<not> p x) \<Longrightarrow> findIndex p xs = - 1"
  by (induction xs) (auto simp: Let_def)

lemma filter_distinct_key:
  assumes "distinct (map f xs)" "i < length xs"
  shows "filter (\<lambda>x. f x \<noteq> f (xs ! i)) xs = take i xs @ drop (Suc i) xs"
  using assms
proof (induction xs arbitrary: i)
  case Nil
  then show ?case by simp
next
  case (Cons x xs)
  show ?case
  proof (cases i)
    case 0
    from Cons.prems have "f x \<notin> f ` set xs" by simp
    then have "\<forall>y\<in>set xs. f y \<noteq> f x" by (metis imageI)
    then have "filter (\<lambda>y. f y \<noteq> f x) xs = xs" by (simp add: filter_id_conv)
    with 0 show ?thesis by simp
  next
    case (Suc k)
    with Cons.prems have k: "k < length xs" and d: "distinct (map f xs)" by auto
    from k have "xs ! k \<in> set xs" by simp
    moreover from Cons.prems have "f x \<notin> f ` set xs" by simp
    ultimately have "f x \<noteq> f (xs ! k)" by (metis imageI)
    with Suc Cons.IH [OF d k] show ?thesis by simp
  qed
qed

lemma at_index_nat: "i < length xs \<Longrightarrow> at_index xs (int i) = Some (xs ! i)"
  by (simp add: at_index_def)

lemma at_index_pred:
  assumes "i < length xs" "0 < i"
  shows "at_index xs (int i - 1) = Some (xs ! (i - 1))"
proof -
  from assms have "int i - 1 = int (i - 1)" by simp
  moreover from assms have "i - 1 < length xs" by simp
  ultimately show ?thesis by (simp only: at_index_nat)
qed

lemma at_index_negative: "i < 0 \<Longrightarrow> at_index xs i = None"
  by (simp add: at_index_def)

text \<open>
  Claim C1. A confirmed \<open>remove(id)\<close> of an id present in the collection, \<open>i\<close> being the
  position of the first note that carries it: the notes with that id are filtered out,
  and the selection becomes null when the collection had exactly one note, the id of the
  note originally at index 1 when the removed note was first of more than one, and
  otherwise the id of the note just before the removed one. Where the ids of the
  collection are unique (the invariant of the store), exactly the note at position \<open>i\<close>
  is deleted and all others keep their order.
\<close>

theorem handleDeleteNote_present:
  assumes "i < length (notes st)"
    and "id_note (notes st ! i) = ident"
    and "\<forall>j<i. id_note (notes st ! j) \<noteq> ident"
  shows "handleDeleteNote True ident st =
           Inr (st\<lparr> notes := filter (\<lambda>n. id_note n \<noteq> ident) (notes st),
                    selectedId :=
                      (if length (notes st) = 1 then None
                       else if i = 0 then Some (id_note (notes st ! 1))
                       else Some (id_note (notes st ! (i - 1)))) \<rparr>)
         \<and> (distinct (map id_note (notes st)) \<longrightarrow>
              filter (\<lambda>n. id_note n \<noteq> ident) (notes st)
                = take i (notes st) @ drop (Suc i) (notes st))"
proof -
  have idx: "findIndex (\<lambda>n. id_note n = ident) (notes st) = int i"
    using assms by (intro findIndex_first) auto
  have sel: "handleDeleteNote True ident st =
           Inr (st\<lparr> notes := filter (\<lambda>n. id_note n \<noteq> ident) (notes st),
                    selectedId :=
                      (if length (notes st) = 1 then None
                       else if i = 0 then Some (id_note (notes st ! 1))
                       else Some (id_note (notes st ! (i - 1)))) \<rparr>)"
  proof (cases "length (notes st) > 1")
    case False
    with assms(1) have "length (notes st) = 1" by simp
    then show ?thesis by (simp add: handleDeleteNote_def Let_def)
  next
    case True
    show ?thesis
    proof (cases "i = 0")
      case True
      from \<open>length (notes st) > 1\<close> have "at_index (notes st) 1 = Some (notes st ! 1)"
        using at_index_nat [of 1 "notes st"] by simp
      with True \<open>length (notes st) > 1\<close> idx show ?thesis
        by (simp add: handleDeleteNote_def Let_def get_id_def)
    next
      case False
      with assms(1) have "at_index (notes st) (int i - 1) = Some (notes st ! (i - 1))"
        by (intro at_index_pred) simp_all
      with False \<open>length (notes st) > 1\<close> idx show ?thesis
        by (simp add: handleDeleteNote_def Let_def get_id_def)
    qed
  qed
  have "distinct (map id_note (notes st)) \<longrightarrow>
          filter (\<lambda>n. id_note n \<noteq> ident) (notes st)
            = take i (notes st) @ drop (Suc i) (notes st)"
    using filter_distinct_key [of id_note "notes st" i] assms(1,2) by auto
  with sel show ?thesis by blast
qed

theorem handleDeleteNote_present_witness:
  "handleDeleteNote True ''b''
     \<lparr> notes = [newNote ''a'' ''a1'' ''a2'' 1 1, newNote ''b'' ''b1'' ''b2'' 2 2,
                newNote ''c'' ''c1'' ''c2'' 3 3],
       selectedId = Some ''b'' \<rparr>
   = Inr \<lparr> notes = [newNote ''a'' ''a1'' ''a2'' 1 1, newNote ''c'' ''c1'' ''c2'' 3 3],
           selectedId = Some ''a'' \<rparr>"
  using handleDeleteNote_present [of 1
      "\<lparr> notes = [newNote ''a'' ''a1'' ''a2'' 1 1, newNote ''b'' ''b1'' ''b2'' 2 2,
                 newNote ''c'' ''c1'' ''c2'' 3 3],
         selectedId = Some ''b'' \<rparr>" "''b''"]
  by (simp add: newNote_def)

text \<open>
  Claim C10. A confirmed \<open>remove(id)\<close> of an id that no note carries, on a collection of
  at least two notes: \<open>findIndex\<close> gives \<open>-1\<close>, the fallback selection reads
  \<open>notes[idx - 1]\<close>, which is outside the array, and reading \<open>.id\<close> of the missing element
  throws; the handler ends with a TypeError instead of ignoring the unknown id.
\<close>

theorem handleDeleteNote_absent:
  assumes "\<forall>n\<in>set (notes st). id_note n \<noteq> ident"
    and "2 \<le> length (notes st)"
  shows "findIndex (\<lambda>n. id_note n = ident) (notes st) = - 1
         \<and> at_index (notes st) (findIndex (\<lambda>n. id_note n = ident) (notes st) - 1) = None
         \<and> handleDeleteNote True ident st = Inl TypeError"
proof -
  have idx: "findIndex (\<lambda>n. id_note n = ident) (notes st) = - 1"
    using assms(1) by (intro findIndex_absent) simp
  have "at_index (notes st) (- 1 - 1) = None"
    by (intro at_index_negative) simp
  with idx show ?thesis
    using assms(2) by (simp add: handleDeleteNote_def Let_def get_id_def)
qed

theorem handleDeleteNote_absent_witness:
  "handleDeleteNote True ''z''
     \<lparr> notes = [newNote ''a'' ''a1'' ''a2'' 1 1, newNote ''b'' ''b1'' ''b2'' 2 2],
       selectedId = Some ''a'' \<rparr>
   = Inl TypeError"
  using handleDeleteNote_absent [of
      "\<lparr> notes = [newNote ''a'' ''a1'' ''a2'' 1 1, newNote ''b'' ''b1'' ''b2'' 2 2],
         selectedId = Some ''a'' \<rparr>" "''z''"]
  by (simp add: newNote_def)

text \<open>On a collection of one note, or none, an unknown id is ignored but for the
  selection, which becomes null.\<close>

lemma handleDeleteNote_absent_short:
  assumes "\<forall>n\<in>set (notes st). id_note n \<noteq> ident" and "length (notes st) \<le> 1"
  shows "handleDeleteNote True ident st = Inr (st\<lparr> selectedId := None \<rparr>)"
proof -
  from assms(1) have "filter (\<lambda>n. id_note n \<noteq> ident) (notes st) = notes st"
    by (simp add: filter_id_conv)
  with assms(2) show ?thesis by (simp add: handleDeleteNote_def Let_def)
qed

lemma handleDeleteNote_declined: "handleDeleteNote False ident st = Inr st"
  by (simp add: handleDeleteNote_def)

text \<open>
  Claim C8. Creating a note: the note has the title \<open>Untitled\<close> and exactly two blocks, a
  heading with content \<open>New Note\<close> and then a plain-text block with empty content; it is
  put in front of the collection, whose length grows by one, and it is selected.
\<close>

theorem handleAddNote_prepends_new_note:
  "title (newNote r1 r2 r3 t1 t2) = ''Untitled''
   \<and> blocks (newNote r1 r2 r3 t1 t2)
       = [\<lparr> id_block = r2, type_block = Heading, content = ''New Note'' \<rparr>,
          \<lparr> id_block = r3, type_block = Text, content = '''' \<rparr>]
   \<and> length (blocks (newNote r1 r2 r3 t1 t2)) = 2
   \<and> notes (handleAddNote r1 r2 r3 t1 t2 st) = newNote r1 r2 r3 t1 t2 # notes st
   \<and> length (notes (handleAddNote r1 r2 r3 t1 t2 st)) = length (notes st) + 1
   \<and> selectedId (handleAddNote r1 r2 r3 t1 t2 st) = Some (id_note (newNote r1 r2 r3 t1 t2))
   \<and> selectedNote (handleAddNote r1 r2 r3 t1 t2 st) = Some (newNote r1 r2 r3 t1 t2)"
  by (simp add: handleAddNote_def newNote_def selectedNote_def Let_def)

section \<open>Properties of the block editor\<close>






text \<open>The slash key reaches the updater from a plain-text block only: on a block of
  another type the handler leaves the list as it is.\<close>

lemma slash_key_not_text:
  "type_block blk \<noteq> Text \<Longrightarrow>
   handleBlockKeyDown \<lparr> key = ''/'', shiftKey = s \<rparr> i blk r bs = bs"
  by (simp add: handleBlockKeyDown_def)

text \<open>
  Claim C6. \<open>insertBlockAfter(idx)\<close> for a valid index: the Enter key puts one new block,
  of type plain text and with empty content, right after the block at \<open>idx\<close>; the blocks up
  to \<open>idx\<close> keep their positions, those after it move one position down, in the same
  order. On the blocks \<open>[A, B]\<close> at index 0 the result is \<open>[A, newBlock, B]\<close>.
\<close>

theorem insertBlockAfter_valid_index:
  assumes "idx < length bs"
  shows "handleBlockKeyDown \<lparr> key = ''Enter'', shiftKey = False \<rparr> idx blk r bs
           = take (Suc idx) bs @ [\<lparr> id_block = r, type_block = Text, content = '''' \<rparr>]
               @ drop (Suc idx) bs
         \<and> length (handleBlockKeyDown \<lparr> key = ''Enter'', shiftKey = False \<rparr> idx blk r bs)
             = Suc (length bs)
         \<and> handleBlockKeyDown \<lparr> key = ''Enter'', shiftKey = False \<rparr> idx blk r bs ! Suc idx
             = \<lparr> id_block = r, type_block = Text, content = '''' \<rparr>
         \<and> (\<forall>i. i \<le> idx \<longrightarrow>
               handleBlockKeyDown \<lparr> key = ''Enter'', shiftKey = False \<rparr> idx blk r bs ! i
                 = bs ! i)
         \<and> (\<forall>i. idx < i \<and> i < length bs \<longrightarrow>
               handleBlockKeyDown \<lparr> key = ''Enter'', shiftKey = False \<rparr> idx blk r bs ! Suc i
                 = bs ! i)
         \<and> handleBlockKeyDown \<lparr> key = ''Enter'', shiftKey = False \<rparr> 0 A r [A, B]
             = [A, \<lparr> id_block = r, type_block = Text, content = '''' \<rparr>, B]"
proof -
  let ?new = "\<lparr> id_block = r, type_block = Text, content = '''' \<rparr>"
  let ?res = "handleBlockKeyDown \<lparr> key = ''Enter'', shiftKey = False \<rparr> idx blk r bs"
  have res: "?res = take (Suc idx) bs @ [?new] @ drop (Suc idx) bs"
    by (simp add: handleBlockKeyDown_def insertBlockAfter_def)
  have len: "length (take (Suc idx) bs) = Suc idx"
    using assms by simp
  have l: "length ?res = Suc (length bs)"
    using assms by (simp add: res)
  have new: "?res ! Suc idx = ?new"
    unfolding res using len by (simp add: nth_append)
  have before: "\<forall>i. i \<le> idx \<longrightarrow> ?res ! i = bs ! i"
    unfolding res using len by (simp add: nth_append)
  have after: "\<forall>i. idx < i \<and> i < length bs \<longrightarrow> ?res ! Suc i = bs ! i"
  proof (intro allI impI)
    fix i
    assume i: "idx < i \<and> i < length bs"
    then have "idx < i" by simp
    then have "Suc i - Suc idx = Suc (i - Suc idx)" by arith
    with i len have "?res ! Suc i = drop (Suc idx) bs ! (i - Suc idx)"
      unfolding res by (simp add: nth_append)
    also from i have "\<dots> = bs ! i" by simp
    finally show "?res ! Suc i = bs ! i" .
  qed
  have ab: "handleBlockKeyDown \<lparr> key = ''Enter'', shiftKey = False \<rparr> 0 A r [A, B]
              = [A, ?new, B]"
    by (simp add: handleBlockKeyDown_def insertBlockAfter_def)
  from res l new before after ab show ?thesis by blast
qed

theorem insertBlockAfter_valid_index_witness:
  "handleBlockKeyDown \<lparr> key = ''Enter'', shiftKey = False \<rparr> 1
     \<lparr> id_block = ''b'', type_block = Text, content = ''y'' \<rparr> ''n''
     [\<lparr> id_block = ''a'', type_block = Heading, content = ''x'' \<rparr>,
      \<lparr> id_block = ''b'', type_block = Text, content = ''y'' \<rparr>,
      \<lparr> id_block = ''c'', type_block = Text, content = ''z'' \<rparr>]
   = [\<lparr> id_block = ''a'', type_block = Heading, content = ''x'' \<rparr>,
      \<lparr> id_block = ''b'', type_block = Text, content = ''y'' \<rparr>,
      \<lparr> id_block = ''n'', type_block = Text, content = '''' \<rparr>,
      \<lparr> id_block = ''c'', type_block = Text, content = ''z'' \<rparr>]"
  using insertBlockAfter_valid_index [of 1
      "[\<lparr> id_block = ''a'', type_block = Heading, content = ''x'' \<rparr>,
        \<lparr> id_block = ''b'', type_block = Text, content = ''y'' \<rparr>,
        \<lparr> id_block = ''c'', type_block = Text, content = ''z'' \<rparr>]"
      "\<lparr> id_block = ''b'', type_block = Text, content = ''y'' \<rparr>" "''n''"]
  by simp

lemma removeBlock_distinct_length:
  assumes "distinct (map id_block bs)"
  shows "length bs \<le> Suc (length (removeBlock blk bs))"
  using assms
proof (induction bs)
  case Nil
  show ?case by (simp add: removeBlock_def)
next
  case (Cons b bs)
  show ?case
  proof (cases "id_block b = id_block blk")
    case True
    with Cons.prems have "id_block blk \<notin> id_block ` set bs" by simp
    then have "\<forall>x\<in>set bs. id_block x \<noteq> id_block blk" by (metis imageI)
    then have "filter (\<lambda>x. id_block x \<noteq> id_block blk) bs = bs"
      by (simp add: filter_id_conv)
    with True show ?thesis by (simp add: removeBlock_def)
  next
    case False
    with Cons show ?thesis by (simp add: removeBlock_def)
  qed
qed

lemma handleBlockKeyDown_nonempty:
  assumes "bs \<noteq> []" and "distinct (map id_block bs)"
  shows "handleBlockKeyDown e idx blk r bs \<noteq> []"
proof (cases "key e = ''Backspace'' \<and> content blk = '''' \<and> length bs > 1")
  case True
  then have "handleBlockKeyDown e idx blk r bs = removeBlock blk bs"
    by (simp add: handleBlockKeyDown_def)
  moreover from assms(2) have "length bs \<le> Suc (length (removeBlock blk bs))"
    by (rule removeBlock_distinct_length)
  with True have "removeBlock blk bs \<noteq> []" by auto
  ultimately show ?thesis by simp
next
  case False
  with assms(1) show ?thesis
    by (auto simp: handleBlockKeyDown_def insertBlockAfter_def cycleBlockType_def Let_def)
qed

lemma handleBlockKeyDown_shorter:
  assumes "length (handleBlockKeyDown e idx blk r bs) < length bs"
  shows "key e = ''Backspace'' \<and> content blk = '''' \<and> 1 < length bs"
proof (rule ccontr)
  assume n: "\<not> (key e = ''Backspace'' \<and> content blk = '''' \<and> 1 < length bs)"
  then have "length bs \<le> length (handleBlockKeyDown e idx blk r bs)"
    by (auto simp: handleBlockKeyDown_def insertBlockAfter_def cycleBlockType_def Let_def)
  with assms show False by simp
qed

text \<open>
  Claim C7. \<open>removeBlock\<close>: a key event makes the list of blocks shorter only when it is
  Backspace on a block whose content is empty while more than one block is there; on a
  note with exactly one block Backspace changes nothing, whatever the block's content;
  and an editor whose blocks are not empty (their ids being unique, as the data model
  has it) has a block left after every editor event.
\<close>

theorem removeBlock_keeps_a_block:
  "(length (handleBlockKeyDown e idx blk r bs) < length bs \<longrightarrow>
      key e = ''Backspace'' \<and> content blk = '''' \<and> 1 < length bs)
   \<and> (length bs = 1 \<longrightarrow>
        handleBlockKeyDown \<lparr> key = ''Backspace'', shiftKey = s \<rparr> idx blk r bs = bs)
   \<and> (blocks_state ed \<noteq> [] \<and> distinct (map id_block (blocks_state ed)) \<longrightarrow>
        blocks_state (editor_step ev ed) \<noteq> [])"
proof -
  have a: "length (handleBlockKeyDown e idx blk r bs) < length bs \<longrightarrow>
      key e = ''Backspace'' \<and> content blk = '''' \<and> 1 < length bs"
    using handleBlockKeyDown_shorter by blast
  have b: "length bs = 1 \<longrightarrow>
        handleBlockKeyDown \<lparr> key = ''Backspace'', shiftKey = s \<rparr> idx blk r bs = bs"
    by (simp add: handleBlockKeyDown_def)
  have c: "blocks_state ed \<noteq> [] \<and> distinct (map id_block (blocks_state ed)) \<longrightarrow>
        blocks_state (editor_step ev ed) \<noteq> []"
  proof (cases ev)
    case (TitleChange t)
    then show ?thesis by simp
  next
    case (BlockInput ident c)
    then show ?thesis by (simp add: handleBlockInput_def)
  next
    case (BlockKeyDown e' idx' blk' r')
    then show ?thesis using handleBlockKeyDown_nonempty by simp
  next
    case (BlockPaste e' ident innerText sel)
    then show ?thesis by (simp add: handleBlockPaste_def handleBlockInput_def Let_def)
  qed
  from a b c show ?thesis by blast
qed

theorem removeBlock_keeps_a_block_witness:
  "handleBlockKeyDown \<lparr> key = ''Backspace'', shiftKey = False \<rparr> 1
      \<lparr> id_block = ''b'', type_block = Text, content = '''' \<rparr> ''r''
      [\<lparr> id_block = ''a'', type_block = Heading, content = ''x'' \<rparr>,
       \<lparr> id_block = ''b'', type_block = Text, content = '''' \<rparr>]
     = [\<lparr> id_block = ''a'', type_block = Heading, content = ''x'' \<rparr>]
   \<and> handleBlockKeyDown \<lparr> key = ''Backspace'', shiftKey = False \<rparr> 0
      \<lparr> id_block = ''a'', type_block = Text, content = '''' \<rparr> ''r''
      [\<lparr> id_block = ''a'', type_block = Text, content = '''' \<rparr>]
     = [\<lparr> id_block = ''a'', type_block = Text, content = '''' \<rparr>]
   \<and> blocks_state (editor_step
        (BlockKeyDown \<lparr> key = ''Backspace'', shiftKey = False \<rparr> 1
           \<lparr> id_block = ''b'', type_block = Text, content = '''' \<rparr> ''r'')
        \<lparr> note_prop = newNote ''n'' ''a'' ''b'' 1 1, title_state = ''Untitled'',
          blocks_state = blocks (newNote ''n'' ''a'' ''b'' 1 1) \<rparr>) \<noteq> []"
  using removeBlock_keeps_a_block [of
      "\<lparr> key = ''Backspace'', shiftKey = False \<rparr>" 1
      "\<lparr> id_block = ''b'', type_block = Text, content = '''' \<rparr>" "''r''"
      "[\<lparr> id_block = ''a'', type_block = Heading, content = ''x'' \<rparr>,
        \<lparr> id_block = ''b'', type_block = Text, content = '''' \<rparr>]" False
      "\<lparr> note_prop = newNote ''n'' ''a'' ''b'' 1 1, title_state = ''Untitled'',
         blocks_state = blocks (newNote ''n'' ''a'' ''b'' 1 1) \<rparr>"
      "BlockKeyDown \<lparr> key = ''Backspace'', shiftKey = False \<rparr> 1
         \<lparr> id_block = ''b'', type_block = Text, content = '''' \<rparr> ''r''"]
    removeBlock_keeps_a_block [of
      "\<lparr> key = ''Backspace'', shiftKey = False \<rparr>" 0
      "\<lparr> id_block = ''a'', type_block = Text, content = '''' \<rparr>" "''r''"
      "[\<lparr> id_block = ''a'', type_block = Text, content = '''' \<rparr>]" False
      "\<lparr> note_prop = newNote ''n'' ''a'' ''b'' 1 1, title_state = ''Untitled'',
         blocks_state = blocks (newNote ''n'' ''a'' ''b'' 1 1) \<rparr>"
      "TitleChange ''t''"]
  by (simp add: newNote_def handleBlockKeyDown_def removeBlock_def)

lemma distinct_insert_middle:
  assumes "distinct (map f (xs @ ys))" and "f x \<notin> f ` set (xs @ ys)"
  shows "distinct (map f (xs @ [x] @ ys))"
  using assms by auto

text \<open>The ids stay unique under every editor event, a new block's id being one that no
  block carries yet; so the hypothesis of the third part holds along any run of events.\<close>

lemma editor_step_distinct:
  assumes "distinct (map id_block (blocks_state ed))"
    and "\<forall>e idx blk r. ev = BlockKeyDown e idx blk r \<longrightarrow> r \<notin> id_block ` set (blocks_state ed)"
  shows "distinct (map id_block (blocks_state (editor_step ev ed)))"
proof (cases ev)
  case (TitleChange t)
  with assms(1) show ?thesis by simp
next
  case (BlockInput ident c)
  have "map id_block (handleBlockInput ident c (blocks_state ed))
          = map id_block (blocks_state ed)"
    by (simp add: handleBlockInput_def)
  with assms(1) BlockInput show ?thesis by simp
next
  case (BlockPaste e ident innerText sel)
  have "map id_block (handleBlockPaste e ident innerText sel (blocks_state ed))
          = map id_block (blocks_state ed)"
    by (simp add: handleBlockPaste_def handleBlockInput_def Let_def)
  with assms(1) BlockPaste show ?thesis by simp
next
  case (BlockKeyDown e idx blk r)
  let ?bs = "blocks_state ed"
  from assms(2) BlockKeyDown have fresh: "r \<notin> id_block ` set ?bs" by simp
  have ins: "distinct (map id_block
      (insertBlockAfter idx \<lparr> id_block = r, type_block = Text, content = '''' \<rparr> ?bs))"
  proof -
    have td: "take (idx + 1) ?bs @ drop (idx + 1) ?bs = ?bs"
      by (rule append_take_drop_id)
    have "distinct (map id_block (take (idx + 1) ?bs @ drop (idx + 1) ?bs))"
      using assms(1) by (simp only: td)
    moreover have "id_block \<lparr> id_block = r, type_block = Text, content = '''' \<rparr>
        \<notin> id_block ` set (take (idx + 1) ?bs @ drop (idx + 1) ?bs)"
      using fresh by (simp only: td) simp
    ultimately show ?thesis
      unfolding insertBlockAfter_def by (rule distinct_insert_middle)
  qed
  have rem: "\<And>xs. distinct (map id_block xs) \<Longrightarrow> distinct (map id_block (removeBlock blk xs))"
    by (simp add: removeBlock_def distinct_map_filter)
  have cyc: "\<And>xs. map id_block (cycleBlockType blk xs) = map id_block xs"
    by (simp add: cycleBlockType_def)
  from assms(1) ins rem cyc BlockKeyDown show ?thesis
    by (simp add: handleBlockKeyDown_def Let_def)
qed

lemma handleBlockPaste_stores_clipboard_text:
  "handleBlockPaste e ident innerText sel prev
     = handleBlockInput ident (getData e ''text/plain'') prev"
  by (simp add: handleBlockPaste_def handleBlockInput_def Let_def comp_def)

text \<open>
  Claim C9. A paste of the plain text \<open>X\<close> (the clipboard also holding it as HTML) at the
  end of a block whose content is \<open>abc\<close>: the block's stored content becomes \<open>X\<close>. The
  clipboard's plain-text form is what is stored, but the content that was there is not
  kept around the insertion point, where the handler of the \<open>input\<close> event, given the
  same element, stores \<open>abcX\<close>.
\<close>

theorem handleBlockPaste_drops_existing_content:
  "handleBlockPaste
     \<lparr> clipboardData = [''text/plain'' \<mapsto> ''X'', ''text/html'' \<mapsto> ''<b>X</b>''] \<rparr>
     ''b1'' ''abc'' \<lparr> sel_start = 3, sel_end = 3 \<rparr>
     [\<lparr> id_block = ''b1'', type_block = Text, content = ''abc'' \<rparr>]
   = [\<lparr> id_block = ''b1'', type_block = Text, content = ''X'' \<rparr>]
   \<and> handleBlockInput ''b1'' (insertText ''abc'' \<lparr> sel_start = 3, sel_end = 3 \<rparr> ''X'')
       [\<lparr> id_block = ''b1'', type_block = Text, content = ''abc'' \<rparr>]
   = [\<lparr> id_block = ''b1'', type_block = Text, content = ''abcX'' \<rparr>]"
  by (simp add: handleBlockPaste_def handleBlockInput_def getData_def insertText_def Let_def)

section \<open>Numbers: what is written is read back\<close>

lemma show_nat_small: "n < 10 \<Longrightarrow> show_nat n = [char_of (48 + n)]"
  by (simp add: show_nat.simps [of n])

lemma show_nat_large:
  "\<not> n < 10 \<Longrightarrow> show_nat n = show_nat (n div 10) @ [char_of (48 + n mod 10)]"
  by (simp add: show_nat.simps [of n])

lemma is_digit_char_of: "d < 10 \<Longrightarrow> is_digit (char_of (48 + d :: nat))"
  by (simp add: is_digit_def)

lemma digit_val_char_of: "d < 10 \<Longrightarrow> digit_val (char_of (48 + d :: nat)) = d"
  by (simp add: digit_val_def)

lemma show_nat_digits: "\<forall>c\<in>set (show_nat n). is_digit c"
proof (induction n rule: show_nat.induct)
  case (1 n)
  show ?case
  proof (cases "n < 10")
    case True
    then show ?thesis by (simp add: show_nat_small is_digit_char_of)
  next
    case False
    have "n mod 10 < 10" by simp
    then have "is_digit (char_of (48 + n mod 10))" by (rule is_digit_char_of)
    with False 1 show ?thesis by (simp add: show_nat_large)
  qed
qed

lemma show_nat_nonempty: "show_nat n \<noteq> []"
  by (cases "n < 10") (simp_all add: show_nat_small show_nat_large)

lemma nat_of_digits_snoc: "nat_of_digits (ds @ [c]) = 10 * nat_of_digits ds + digit_val c"
  by (simp add: nat_of_digits_def)

lemma nat_of_digits_show_nat: "nat_of_digits (show_nat n) = n"
proof (induction n rule: show_nat.induct)
  case (1 n)
  show ?case
  proof (cases "n < 10")
    case True
    then show ?thesis
      by (simp add: show_nat_small nat_of_digits_def digit_val_char_of)
  next
    case False
    have "digit_val (char_of (48 + n mod 10)) = n mod 10"
      by (rule digit_val_char_of) simp
    with False 1 show ?thesis by (simp add: show_nat_large nat_of_digits_snoc)
  qed
qed

lemma show_nat_leading_zero: "hd (show_nat n) = CHR ''0'' \<Longrightarrow> n = 0"
proof (induction n rule: show_nat.induct)
  case (1 n)
  show ?case
  proof (cases "n < 10")
    case True
    with "1.prems" have "char_of (48 + n) = CHR ''0''" by (simp add: show_nat_small)
    then have "(of_char (char_of (48 + n)) :: nat) = of_char (CHR ''0'')" by simp
    with True show "n = 0" by simp
  next
    case False
    with "1.prems" have "hd (show_nat (n div 10)) = CHR ''0''"
      by (simp add: show_nat_large show_nat_nonempty)
    with False 1 have "n div 10 = 0" by simp
    with False show ?thesis by simp
  qed
qed

lemma takeWhile_digits_append:
  assumes "\<forall>c\<in>set ds. is_digit c" and "rest = [] \<or> \<not> is_digit (hd rest)"
  shows "takeWhile is_digit (ds @ rest) = ds \<and> dropWhile is_digit (ds @ rest) = rest"
proof -
  from assms(2) have "takeWhile is_digit rest = [] \<and> dropWhile is_digit rest = rest"
    by (cases rest) auto
  with assms(1) show ?thesis
    by (simp add: takeWhile_append2 dropWhile_append2)
qed

lemma delimited_not_digit: "delimited rest \<Longrightarrow> rest = [] \<or> \<not> is_digit (hd rest)"
  by (cases rest) (auto simp: delimited_def is_digit_def)

lemma parse_int_part_show_nat:
  assumes "delimited rest"
  shows "parse_int_part (show_nat n @ rest) = Some (show_nat n, rest)"
proof -
  obtain d ds where s: "show_nat n = d # ds"
    using show_nat_nonempty [of n] by (cases "show_nat n") auto
  have digs: "\<forall>c\<in>set (d # ds). is_digit c"
    using show_nat_digits [of n] by (simp only: s)
  from assms have nd: "rest = [] \<or> \<not> is_digit (hd rest)"
    by (rule delimited_not_digit)
  show ?thesis
  proof (cases "d = CHR ''0''")
    case True
    with s have "n = 0" by (intro show_nat_leading_zero) simp
    then have "show_nat n = ''0''" by (simp add: show_nat_small) code_simp
    then show ?thesis by (simp add: parse_int_part_def)
  next
    case False
    from digs have "\<forall>c\<in>set ds. is_digit c" by simp
    then have "takeWhile is_digit (ds @ rest) = ds \<and> dropWhile is_digit (ds @ rest) = rest"
      using nd by (rule takeWhile_digits_append)
    with False digs show ?thesis by (simp add: parse_int_part_def s)
  qed
qed

lemma parse_fraction_delimited: "delimited rest \<Longrightarrow> parse_fraction rest = Some ([], rest)"
  by (cases rest) (auto simp: delimited_def parse_fraction_def)

lemma parse_exponent_delimited: "delimited rest \<Longrightarrow> parse_exponent rest = Some ([], rest)"
  by (cases rest) (auto simp: delimited_def parse_exponent_def)

lemma show_nat_not_minus: "hd (show_nat n) \<noteq> CHR ''-''"
proof -
  obtain d ds where s: "show_nat n = d # ds"
    using show_nat_nonempty [of n] by (cases "show_nat n") auto
  with show_nat_digits [of n] have "is_digit d" by simp
  then have "d \<noteq> CHR ''-''" by (auto simp: is_digit_def)
  with s show ?thesis by simp
qed

lemma parse_number_show_int:
  assumes "delimited rest"
  shows "parse_number (show_int i @ rest) = Some (JNumber i, rest)"
proof (cases "i < 0")
  case True
  then have "show_int i = CHR ''-'' # show_nat (nat (- i))" by (simp add: show_int_def)
  moreover from True have "- int (nat (- i)) = i" by simp
  ultimately show ?thesis
    using assms
    by (simp add: parse_number_def parse_int_part_show_nat parse_fraction_delimited
        parse_exponent_delimited nat_of_digits_show_nat)
next
  case False
  obtain d ds where s: "show_nat (nat i) = d # ds"
    using show_nat_nonempty [of "nat i"] by (cases "show_nat (nat i)") auto
  with show_nat_not_minus [of "nat i"] have d: "d \<noteq> CHR ''-''" by simp
  from False have si: "show_int i = show_nat (nat i)" by (simp add: show_int_def)
  have pi: "parse_int_part (d # ds @ rest) = Some (d # ds, rest)"
    using parse_int_part_show_nat [OF assms, of "nat i"] by (simp add: s)
  have nd: "nat_of_digits (d # ds) = nat i"
    using nat_of_digits_show_nat [of "nat i"] by (simp add: s)
  from False d assms show ?thesis
    by (simp add: si s parse_number_def pi nd parse_fraction_delimited
        parse_exponent_delimited)
qed

section \<open>Strings: what is written is read back\<close>

lemma hex_val_hex_char: "n < 16 \<Longrightarrow> hex_val (hex_char n) = Some n"
  by (cases "n < 10") (simp_all add: hex_val_def hex_char_def Let_def)

lemma hex_val_zero: "hex_val (CHR ''0'') = Some 0"
  by (simp add: hex_val_def)

lemma hex4_control:
  assumes "k < 256"
  shows "hex4 (CHR ''0'') (CHR ''0'') (hex_char (k div 16)) (hex_char (k mod 16))
           = Some (char_of k)"
proof -
  from assms have "k div 16 < 16" by simp
  then have a: "hex_val (hex_char (k div 16)) = Some (k div 16)" by (rule hex_val_hex_char)
  have b: "hex_val (hex_char (k mod 16)) = Some (k mod 16)"
    by (rule hex_val_hex_char) simp
  have "((0 * 16 + 0) * 16 + k div 16) * 16 + k mod 16 = k" by simp
  with a b show ?thesis by (simp add: hex4_def hex_val_zero)
qed

lemma parse_chars_escape_char:
  "parse_chars (escape_char c @ rest) = cons_char c (parse_chars rest)"
proof -
  have k: "(of_char c :: nat) < 256" by simp
  have h: "hex4 (CHR ''0'') (CHR ''0'') (hex_char (of_char c div 16)) (hex_char (of_char c mod 16))
             = Some c"
    using hex4_control [OF k] by simp
  show ?thesis
    by (simp add: escape_char_def unescape_def h)
qed

lemma parse_chars_escaped:
  "parse_chars (concat (map escape_char s) @ CHR 0x22 # rest) = Some (s, rest)"
proof (induction s)
  case Nil
  show ?case by simp
next
  case (Cons c s)
  have "parse_chars (concat (map escape_char (c # s)) @ CHR 0x22 # rest)
          = parse_chars (escape_char c @ (concat (map escape_char s) @ CHR 0x22 # rest))"
    by simp
  also have "\<dots> = cons_char c (parse_chars (concat (map escape_char s) @ CHR 0x22 # rest))"
    by (rule parse_chars_escape_char)
  also have "\<dots> = Some (c # s, rest)"
    by (simp add: Cons.IH cons_char_def)
  finally show ?case .
qed

lemma parse_chars_quote_string:
  "\<exists>t. quote_string s @ rest = CHR 0x22 # t \<and> parse_chars t = Some (s, rest)"
  by (simp add: quote_string_def parse_chars_escaped)

section \<open>Values: what \<open>JSON.stringify\<close> writes, \<open>JSON.parse\<close> reads back\<close>

lemma skip_ws_no_ws: "\<not> is_ws c \<Longrightarrow> skip_ws (c # cs) = c # cs"
  by (simp add: skip_ws_def)

lemma set_property_new: "k \<notin> fst ` set ps \<Longrightarrow> set_property k v ps = ps @ [(k, v)]"
  by (induction ps) auto

lemma foldl_set_property_distinct:
  "distinct (map fst (acc @ ms)) \<Longrightarrow>
   foldl (\<lambda>obj (k, v). set_property k v obj) acc ms = acc @ ms"
proof (induction ms arbitrary: acc)
  case Nil
  show ?case by simp
next
  case (Cons m ms)
  obtain k v where m: "m = (k, v)" by (cases m)
  from Cons.prems m have "k \<notin> fst ` set acc" by auto
  then have sp: "set_property k v acc = acc @ [(k, v)]" by (rule set_property_new)
  from Cons.prems m have "distinct (map fst ((acc @ [(k, v)]) @ ms))" by simp
  then have "foldl (\<lambda>obj (k, v). set_property k v obj) (acc @ [(k, v)]) ms
               = (acc @ [(k, v)]) @ ms"
    by (rule Cons.IH)
  with sp m show ?case by simp
qed

lemma make_object_distinct: "distinct (map fst ms) \<Longrightarrow> make_object ms = ms"
  using foldl_set_property_distinct [of "[]" ms] by (simp add: make_object_def)

lemma show_int_head:
  "\<exists>d ds. show_int i = d # ds \<and> (is_digit d \<or> d = CHR ''-'')"
proof (cases "i < 0")
  case True
  then show ?thesis by (simp add: show_int_def)
next
  case False
  obtain d ds where s: "show_nat (nat i) = d # ds"
    using show_nat_nonempty [of "nat i"] by (cases "show_nat (nat i)") auto
  with show_nat_digits [of "nat i"] have "is_digit d" by simp
  with False s show ?thesis by (simp add: show_int_def)
qed

lemma parse_value_number:
  assumes "delimited rest"
  shows "parse_value (Suc f) (show_int i @ rest) = Some (JNumber i, rest)"
proof -
  obtain d ds where s: "show_int i = d # ds" and d: "is_digit d \<or> d = CHR ''-''"
    using show_int_head [of i] by blast
  from d have nws: "\<not> is_ws d" by (auto simp: is_digit_def is_ws_def)
  from d have disp: "d \<noteq> CHR ''{'' \<and> d \<noteq> CHR ''['' \<and> d \<noteq> CHR 0x22 \<and> d \<noteq> CHR ''t''
      \<and> d \<noteq> CHR ''f'' \<and> d \<noteq> CHR ''n''"
    by (auto simp: is_digit_def)
  have "parse_number (d # ds @ rest) = Some (JNumber i, rest)"
    using parse_number_show_int [OF assms, of i] by (simp add: s)
  with nws disp show ?thesis by (simp add: s skip_ws_no_ws)
qed

lemma parse_value_string:
  "parse_value (Suc f) (quote_string s @ rest) = Some (JString s, rest)"
proof -
  obtain t where t: "quote_string s @ rest = CHR 0x22 # t" and p: "parse_chars t = Some (s, rest)"
    using parse_chars_quote_string [of s rest] by blast
  have "\<not> is_ws (CHR 0x22)" by (simp add: is_ws_def)
  then have "skip_ws (CHR 0x22 # t) = CHR 0x22 # t" by (rule skip_ws_no_ws)
  with p show ?thesis by (simp add: t)
qed

lemma parse_value_literals:
  "parse_value (Suc f) (''null'' @ rest) = Some (JNull, rest)"
  "parse_value (Suc f) (''true'' @ rest) = Some (JBool True, rest)"
  "parse_value (Suc f) (''false'' @ rest) = Some (JBool False, rest)"
  by (simp_all add: skip_ws_def is_ws_def strip_prefix_def)

lemma stringify_head:
  "plain_json v \<Longrightarrow>
   \<exists>c t. JSON_stringify v = c # t \<and> \<not> is_ws c \<and> c \<noteq> CHR '']'' \<and> c \<noteq> CHR ''}''"
proof (cases v)
  case (JNumber i)
  obtain d ds where s: "show_int i = d # ds" and d: "is_digit d \<or> d = CHR ''-''"
    using show_int_head [of i] by blast
  from d have "\<not> is_ws d \<and> d \<noteq> CHR '']'' \<and> d \<noteq> CHR ''}''"
    by (auto simp: is_digit_def is_ws_def)
  with s JNumber show ?thesis by simp
qed (auto simp: is_ws_def quote_string_def)


lemma join_comma_Cons: "xs \<noteq> [] \<Longrightarrow> join_comma (x # xs) = x @ CHR '','' # join_comma xs"
  by (cases xs) simp_all

lemma parse_elements_join:
  assumes "\<And>x f rest. x \<in> set xs \<Longrightarrow> length (JSON_stringify x) \<le> f \<Longrightarrow> delimited rest
             \<Longrightarrow> parse_value f (JSON_stringify x @ rest) = Some (x, rest)"
    and "xs \<noteq> []"
    and "length (join_comma (map JSON_stringify xs)) < f"
  shows "parse_elements f (join_comma (map JSON_stringify xs) @ CHR '']'' # rest)
           = Some (xs, rest)"
  using assms
proof (induction xs arbitrary: f)
  case Nil
  then show ?case by simp
next
  case (Cons x xs)
  note elem = Cons.prems(1) and IH = Cons.IH and bound = Cons.prems(3)
  from bound obtain f' where f: "f = Suc f'" by (cases f) auto
  show ?case
  proof (cases "xs = []")
    case True
    from bound f True have len: "length (JSON_stringify x) \<le> f'" by simp
    have del: "delimited (CHR '']'' # rest)" by (simp add: delimited_def)
    have "parse_value f' (JSON_stringify x @ CHR '']'' # rest) = Some (x, CHR '']'' # rest)"
      using elem [of x f' "CHR '']'' # rest"] len del by simp
    then show ?thesis by (simp add: f True skip_ws_def is_ws_def)
  next
    case False
    let ?tail = "join_comma (map JSON_stringify xs) @ CHR '']'' # rest"
    from False have jc: "join_comma (JSON_stringify x # map JSON_stringify xs)
        = JSON_stringify x @ CHR '','' # join_comma (map JSON_stringify xs)"
      by (simp add: join_comma_Cons)
    from bound f have len: "length (JSON_stringify x) \<le> f'"
      and len': "length (join_comma (map JSON_stringify xs)) < f'"
      by (simp_all add: jc)
    have del: "delimited (CHR '','' # ?tail)" by (simp add: delimited_def)
    have pv: "parse_value f' (JSON_stringify x @ CHR '','' # ?tail) = Some (x, CHR '','' # ?tail)"
      using elem [of x f' "CHR '','' # ?tail"] len del by simp
    have sub: "\<And>y g r. y \<in> set xs \<Longrightarrow> length (JSON_stringify y) \<le> g \<Longrightarrow> delimited r
                 \<Longrightarrow> parse_value g (JSON_stringify y @ r) = Some (y, r)"
      using elem by simp
    have pe: "parse_elements f' ?tail = Some (xs, rest)"
      using sub False len' by (rule IH)
    from pv pe show ?thesis by (simp add: f jc skip_ws_def is_ws_def)
  qed
qed

lemma parse_members_join:
  assumes "\<And>k v f rest. (k, v) \<in> set ms \<Longrightarrow> length (JSON_stringify v) \<le> f \<Longrightarrow> delimited rest
             \<Longrightarrow> parse_value f (JSON_stringify v @ rest) = Some (v, rest)"
    and "ms \<noteq> []"
    and "length (join_comma
           (map (\<lambda>(k, v). quote_string k @ CHR '':'' # JSON_stringify v) ms)) < f"
  shows "parse_members f
           (join_comma (map (\<lambda>(k, v). quote_string k @ CHR '':'' # JSON_stringify v) ms)
              @ CHR ''}'' # rest)
           = Some (ms, rest)"
  using assms
proof (induction ms arbitrary: f)
  case Nil
  then show ?case by simp
next
  case (Cons m ms)
  note elem = Cons.prems(1) and IH = Cons.IH and bound = Cons.prems(3)
  let ?mem = "\<lambda>(k, v). quote_string k @ CHR '':'' # JSON_stringify v"
  obtain k v where m: "m = (k, v)" by (cases m)
  from bound obtain f' where f: "f = Suc f'" by (cases f) auto
  have ws: "\<not> is_ws (CHR 0x22)" by (simp add: is_ws_def)
  show ?case
  proof (cases "ms = []")
    case True
    let ?after = "CHR '':'' # JSON_stringify v @ CHR ''}'' # rest"
    obtain t where t: "quote_string k @ ?after = CHR 0x22 # t"
      and p: "parse_chars t = Some (k, ?after)"
      using parse_chars_quote_string [of k ?after] by blast
    from bound f True m have len: "length (JSON_stringify v) \<le> f'" by simp
    have del: "delimited (CHR ''}'' # rest)" by (simp add: delimited_def)
    have pv: "parse_value f' (JSON_stringify v @ CHR ''}'' # rest) = Some (v, CHR ''}'' # rest)"
      using elem [of k v f' "CHR ''}'' # rest"] len del m by simp
    have "parse_members (Suc f') (CHR 0x22 # t) = Some ([(k, v)], rest)"
      using p pv ws by (simp add: skip_ws_def is_ws_def)
    with t show ?thesis by (simp add: f True m)
  next
    case False
    let ?tail = "join_comma (map ?mem ms) @ CHR ''}'' # rest"
    let ?after = "CHR '':'' # JSON_stringify v @ CHR '','' # ?tail"
    from False have jc: "join_comma ((quote_string k @ CHR '':'' # JSON_stringify v) # map ?mem ms)
        = (quote_string k @ CHR '':'' # JSON_stringify v) @ CHR '','' # join_comma (map ?mem ms)"
      by (simp add: join_comma_Cons)
    obtain t where t: "quote_string k @ ?after = CHR 0x22 # t"
      and p: "parse_chars t = Some (k, ?after)"
      using parse_chars_quote_string [of k ?after] by blast
    from bound f m have len: "length (JSON_stringify v) \<le> f'"
      and len': "length (join_comma (map ?mem ms)) < f'"
      by (simp_all add: jc)
    have del: "delimited (CHR '','' # ?tail)" by (simp add: delimited_def)
    have pv: "parse_value f' (JSON_stringify v @ CHR '','' # ?tail) = Some (v, CHR '','' # ?tail)"
      using elem [of k v f' "CHR '','' # ?tail"] len del m by simp
    have sub: "\<And>k v g r. (k, v) \<in> set ms \<Longrightarrow> length (JSON_stringify v) \<le> g \<Longrightarrow> delimited r
                 \<Longrightarrow> parse_value g (JSON_stringify v @ r) = Some (v, r)"
    proof -
      fix k' v' g r
      assume "(k', v') \<in> set ms" and l: "length (JSON_stringify v') \<le> g" and d: "delimited r"
      then have "(k', v') \<in> set (m # ms)" by simp
      then show "parse_value g (JSON_stringify v' @ r) = Some (v', r)"
        using l d by (rule elem)
    qed
    have pm: "parse_members f' ?tail = Some (ms, rest)"
      using sub False len' by (rule IH)
    have "parse_members (Suc f') (CHR 0x22 # t) = Some ((k, v) # ms, rest)"
      using p pv pm ws by (simp add: skip_ws_def is_ws_def)
    with t show ?thesis by (simp add: f jc m)
  qed
qed

lemma parse_value_stringify:
  "plain_json v \<Longrightarrow> length (JSON_stringify v) \<le> f \<Longrightarrow> delimited rest \<Longrightarrow>
   parse_value f (JSON_stringify v @ rest) = Some (v, rest)"
proof (induction v arbitrary: f rest)
  case JNull
  then obtain f' where "f = Suc f'" by (cases f) auto
  then show ?case using parse_value_literals(1) [of f' rest] by simp
next
  case (JBool b)
  then obtain f' where "f = Suc f'" by (cases f; cases b) auto
  then show ?case
    using parse_value_literals(2) [of f' rest] parse_value_literals(3) [of f' rest]
    by (cases b) simp_all
next
  case (JNumber i)
  obtain d ds where "show_int i = d # ds" using show_int_head [of i] by blast
  with JNumber.prems(2) obtain f' where "f = Suc f'" by (cases f) auto
  with JNumber.prems(3) show ?case using parse_value_number [of rest f' i] by simp
next
  case (JDouble s)
  then show ?case by simp
next
  case (JString s)
  then obtain f' where "f = Suc f'" by (cases f) (auto simp: quote_string_def)
  then show ?case using parse_value_string [of f' s rest] by simp
next
  case (JArray xs)
  from JArray.prems(2) obtain f' where f: "f = Suc f'" by (cases f) auto
  show ?case
  proof (cases xs)
    case Nil
    then show ?thesis by (simp add: f skip_ws_def is_ws_def)
  next
    case (Cons y ys)
    let ?body = "join_comma (map JSON_stringify xs) @ CHR '']'' # rest"
    have ih: "\<And>x g r. x \<in> set xs \<Longrightarrow> length (JSON_stringify x) \<le> g \<Longrightarrow> delimited r
                \<Longrightarrow> parse_value g (JSON_stringify x @ r) = Some (x, r)"
    proof -
      fix x g r
      assume x: "x \<in> set xs" and "length (JSON_stringify x) \<le> g" and "delimited r"
      moreover from JArray.prems(1) x have "plain_json x" by (simp add: list_all_iff)
      ultimately show "parse_value g (JSON_stringify x @ r) = Some (x, r)"
        using JArray.IH [of x g r] by simp
    qed
    from JArray.prems(2) f have len: "length (join_comma (map JSON_stringify xs)) < f'"
      by simp
    from Cons have ne: "xs \<noteq> []" by simp
    have pe: "parse_elements f' ?body = Some (xs, rest)"
      using ih ne len by (rule parse_elements_join)
    from JArray.prems(1) Cons have "plain_json y" by simp
    then obtain c t where c: "JSON_stringify y = c # t" and nws: "\<not> is_ws c"
      and nb: "c \<noteq> CHR '']''"
      using stringify_head [of y] by blast
    obtain u where u: "?body = c # u"
      using c Cons by (cases ys) simp_all
    from pe u have pe': "parse_elements f' (c # u) = Some (xs, rest)" by simp
    have nwb: "\<not> is_ws (CHR ''['')" by (simp add: is_ws_def)
    have "parse_value (Suc f') (CHR ''['' # c # u) = Some (JArray xs, rest)"
      using pe' nws nb nwb by (simp add: skip_ws_no_ws)
    with u show ?thesis by (simp add: f)
  qed
next
  case (JObject ms)
  from JObject.prems(2) obtain f' where f: "f = Suc f'" by (cases f) auto
  show ?case
  proof (cases ms)
    case Nil
    then show ?thesis by (simp add: f skip_ws_def is_ws_def make_object_def)
  next
    case (Cons m ms')
    let ?mem = "\<lambda>(k, v). quote_string k @ CHR '':'' # JSON_stringify v"
    let ?body = "join_comma (map ?mem ms) @ CHR ''}'' # rest"
    have ih: "\<And>k v g r. (k, v) \<in> set ms \<Longrightarrow> length (JSON_stringify v) \<le> g \<Longrightarrow> delimited r
                \<Longrightarrow> parse_value g (JSON_stringify v @ r) = Some (v, r)"
    proof -
      fix k v g r
      assume kv: "(k, v) \<in> set ms" and "length (JSON_stringify v) \<le> g" and "delimited r"
      moreover from JObject.prems(1) kv have "plain_json v" by (auto simp: list_all_iff)
      moreover from kv have "v \<in> Basic_BNFs.snds (k, v)" by simp
      ultimately show "parse_value g (JSON_stringify v @ r) = Some (v, r)"
        using JObject.IH [of "(k, v)" v g r] by simp
    qed
    from JObject.prems(2) f have len: "length (join_comma (map ?mem ms)) < f'"
      by simp
    from Cons have ne: "ms \<noteq> []" by simp
    have pm: "parse_members f' ?body = Some (ms, rest)"
      using ih ne len by (rule parse_members_join)
    from JObject.prems(1) have mo: "make_object ms = ms"
      by (intro make_object_distinct) simp
    obtain k v where m: "m = (k, v)" by (cases m)
    obtain u where u: "?body = CHR 0x22 # u"
      using Cons m by (cases ms') (simp_all add: quote_string_def)
    from pm u have pm': "parse_members f' (CHR 0x22 # u) = Some (ms, rest)" by simp
    have "parse_value (Suc f') (CHR ''{'' # CHR 0x22 # u) = Some (JObject ms, rest)"
      using pm' mo by (simp add: skip_ws_def is_ws_def)
    with u show ?thesis by (simp add: f)
  qed
qed

lemma JSON_parse_stringify: "plain_json v \<Longrightarrow> JSON_parse (JSON_stringify v) = Inr v"
  using parse_value_stringify [of v "length (JSON_stringify v)" "[]"]
  by (simp add: JSON_parse_def delimited_def skip_ws_def)

section \<open>The bound on the depth of the descent is never reached\<close>

lemma skip_ws_length: "length (skip_ws cs) \<le> length cs"
  by (simp add: skip_ws_def length_dropWhile_le)

lemma skip_ws_Cons_length: "skip_ws cs = c # r \<Longrightarrow> length r < length cs"
  using skip_ws_length [of cs] by simp

lemma cons_char_Some:
  "cons_char c x = Some (s, r) \<Longrightarrow> \<exists>s'. x = Some (s', r) \<and> s = c # s'"
  by (auto simp: cons_char_def split: option.splits)

lemma parse_chars_shorter: "parse_chars cs = Some (s, r) \<Longrightarrow> length r < length cs"
proof (induction cs arbitrary: s r rule: length_induct)
  case (1 cs)
  note IH = "1.IH" and p = "1.prems"
  have step: "\<And>ys ch. length ys < length cs \<Longrightarrow> cons_char ch (parse_chars ys) = Some (s, r)
                \<Longrightarrow> length r < length cs"
  proof -
    fix ys ch
    assume l: "length ys < length cs" and cc: "cons_char ch (parse_chars ys) = Some (s, r)"
    from cc obtain s' where "parse_chars ys = Some (s', r)"
      using cons_char_Some by blast
    with IH l have "length r < length ys" by blast
    with l show "length r < length cs" by simp
  qed
  show ?case
  proof (cases cs)
    case Nil
    with p show ?thesis by simp
  next
    case (Cons c t)
    show ?thesis
    proof (cases "c = CHR 0x22")
      case True
      with p Cons show ?thesis by simp
    next
      case nq: False
      show ?thesis
      proof (cases "c = CHR 0x5C")
        case False
        with nq p Cons have "cons_char c (parse_chars t) = Some (s, r)"
          by (simp split: if_splits)
        moreover from Cons have "length t < length cs" by simp
        ultimately show ?thesis using step by blast
      next
        case True
        show ?thesis
        proof (cases t)
          case Nil
          with nq True p Cons show ?thesis by simp
        next
          case t: (Cons e u)
          show ?thesis
          proof (cases "e = CHR ''u''")
            case True
            with nq \<open>c = CHR 0x5C\<close> Cons t p obtain h1 h2 h3 h4 u' ch
              where u: "u = h1 # h2 # h3 # h4 # u'"
                and cc: "cons_char ch (parse_chars u') = Some (s, r)"
              by (auto split: list.splits option.splits)
            from Cons t u have "length u' < length cs" by simp
            with cc show ?thesis using step by blast
          next
            case False
            with nq \<open>c = CHR 0x5C\<close> Cons t p obtain ch
              where cc: "cons_char ch (parse_chars u) = Some (s, r)"
              by (auto split: option.splits)
            from Cons t have "length u < length cs" by simp
            with cc show ?thesis using step by blast
          qed
        qed
      qed
    qed
  qed
qed

lemma parse_int_part_shorter: "parse_int_part cs = Some (ds, r) \<Longrightarrow> length r < length cs"
  by (cases cs) (auto simp: parse_int_part_def less_Suc_eq_le length_dropWhile_le split: if_splits)

lemma parse_fraction_shorter: "parse_fraction cs = Some (ds, r) \<Longrightarrow> length r \<le> length cs"
  by (cases cs) (auto simp: parse_fraction_def le_Suc_eq length_dropWhile_le
      intro: le_SucI split: if_splits)

lemma parse_exponent_shorter: "parse_exponent cs = Some (ds, r) \<Longrightarrow> length r \<le> length cs"
proof (cases cs)
  case Nil
  assume "parse_exponent cs = Some (ds, r)"
  with Nil show ?thesis by (simp add: parse_exponent_def)
next
  case (Cons c t)
  assume p: "parse_exponent cs = Some (ds, r)"
  show ?thesis
  proof (cases "c = CHR ''e'' \<or> c = CHR ''E''")
    case False
    with p Cons show ?thesis by (auto simp: parse_exponent_def)
  next
    case True
    have d: "\<And>xs. length (dropWhile is_digit xs) \<le> length xs"
      by (rule length_dropWhile_le)
    from p Cons True have "r = dropWhile is_digit t \<or> (\<exists>x u. t = x # u \<and> r = dropWhile is_digit u)"
      by (auto simp: parse_exponent_def Let_def split: list.splits if_splits)
    then show ?thesis
    proof
      assume "r = dropWhile is_digit t"
      with d [of t] Cons show ?thesis by simp
    next
      assume "\<exists>x u. t = x # u \<and> r = dropWhile is_digit u"
      then obtain x u where "t = x # u" "r = dropWhile is_digit u" by blast
      with d [of u] Cons show ?thesis by simp
    qed
  qed
qed

lemma parse_number_shorter:
  assumes "parse_number cs = Some (v, r)"
  shows "length r < length cs"
proof -
  obtain neg cs1 where n: "(case cs of [] \<Rightarrow> (False, cs)
      | c # t \<Rightarrow> if c = CHR ''-'' then (True, t) else (False, cs)) = (neg, cs1)"
    by (cases "(case cs of [] \<Rightarrow> (False, cs)
      | c # t \<Rightarrow> if c = CHR ''-'' then (True, t) else (False, cs))")
  then have l1: "length cs1 \<le> length cs" by (auto split: list.splits if_splits)
  from assms n obtain ds cs2 fr cs3 ex where "parse_int_part cs1 = Some (ds, cs2)"
    and "parse_fraction cs2 = Some (fr, cs3)" and "parse_exponent cs3 = Some (ex, r)"
    by (auto simp: parse_number_def split: option.splits if_splits)
  then have "length cs2 < length cs1" "length cs3 \<le> length cs2" "length r \<le> length cs3"
    by (auto dest: parse_int_part_shorter parse_fraction_shorter parse_exponent_shorter)
  with l1 show ?thesis by simp
qed

lemma strip_prefix_shorter: "strip_prefix p cs = Some r \<Longrightarrow> length r \<le> length cs"
  by (auto simp: strip_prefix_def split: if_splits)


lemma parse_shorter:
  "(\<forall>cs v r. parse_value f cs = Some (v, r) \<longrightarrow> length r < length cs)
   \<and> (\<forall>cs vs r. parse_elements f cs = Some (vs, r) \<longrightarrow> length r < length cs)
   \<and> (\<forall>cs ms r. parse_members f cs = Some (ms, r) \<longrightarrow> length r < length cs)"
proof (induction f)
  case 0
  show ?case by simp
next
  case (Suc f)
  then have IHv: "\<And>cs v r. parse_value f cs = Some (v, r) \<Longrightarrow> length r < length cs"
    and IHe: "\<And>cs vs r. parse_elements f cs = Some (vs, r) \<Longrightarrow> length r < length cs"
    and IHm: "\<And>cs ms r. parse_members f cs = Some (ms, r) \<Longrightarrow> length r < length cs"
    by blast+
  have v: "\<forall>cs v r. parse_value (Suc f) cs = Some (v, r) \<longrightarrow> length r < length cs"
  proof (intro allI impI)
    fix cs v r
    assume p: "parse_value (Suc f) cs = Some (v, r)"
    then obtain c t where sk: "skip_ws cs = c # t"
      by (cases "skip_ws cs") simp_all
    then have lt: "length t < length cs" by (rule skip_ws_Cons_length)
    have "length r \<le> length t"
    proof (cases "c = CHR ''{''")
      case True
      with p sk obtain d t' where sk': "skip_ws t = d # t'"
        by (cases "skip_ws t") simp_all
      show ?thesis
      proof (cases "d = CHR ''}''")
        case True
        with p sk sk' \<open>c = CHR ''{''\<close> have "r = t'" by simp
        with skip_ws_Cons_length [OF sk'] show ?thesis by simp
      next
        case False
        with p sk sk' \<open>c = CHR ''{''\<close> obtain ms where "parse_members f t = Some (ms, r)"
          by (auto split: option.splits)
        then show ?thesis using IHm less_imp_le by blast
      qed
    next
      case nb: False
      show ?thesis
      proof (cases "c = CHR ''[''")
        case True
        with p sk nb obtain d t' where sk': "skip_ws t = d # t'"
          by (cases "skip_ws t") simp_all
        show ?thesis
        proof (cases "d = CHR '']''")
          case True
          with p sk sk' nb \<open>c = CHR ''[''\<close> have "r = t'" by simp
          with skip_ws_Cons_length [OF sk'] show ?thesis by simp
        next
          case False
          with p sk sk' nb \<open>c = CHR ''[''\<close> obtain vs where "parse_elements f t = Some (vs, r)"
            by (auto split: option.splits)
          then show ?thesis using IHe less_imp_le by blast
        qed
      next
        case na: False
        show ?thesis
        proof (cases "c = CHR 0x22")
          case True
          with p sk nb na obtain s where "parse_chars t = Some (s, r)"
            by (auto split: option.splits)
          then show ?thesis using parse_chars_shorter less_imp_le by blast
        next
          case nq: False
          from p sk nb na nq have
            "(\<exists>pre. strip_prefix pre t = Some r) \<or> parse_number (c # t) = Some (v, r)"
            by (auto split: option.splits if_splits)
          then show ?thesis
          proof
            assume "\<exists>pre. strip_prefix pre t = Some r"
            then show ?thesis using strip_prefix_shorter by blast
          next
            assume "parse_number (c # t) = Some (v, r)"
            then have "length r < length (c # t)" by (rule parse_number_shorter)
            then show ?thesis by simp
          qed
        qed
      qed
    qed
    with lt show "length r < length cs" by simp
  qed
  have e: "\<forall>cs vs r. parse_elements (Suc f) cs = Some (vs, r) \<longrightarrow> length r < length cs"
  proof (intro allI impI)
    fix cs vs r
    assume p: "parse_elements (Suc f) cs = Some (vs, r)"
    then obtain x r1 where pv: "parse_value f cs = Some (x, r1)"
      by (auto split: option.splits)
    then have l1: "length r1 < length cs" by (rule IHv)
    from p pv obtain c t where sk: "skip_ws r1 = c # t"
      by (cases "skip_ws r1") simp_all
    then have l2: "length t < length r1" by (rule skip_ws_Cons_length)
    from p pv sk have "r = t \<or> (\<exists>ys. parse_elements f t = Some (ys, r))"
      by (auto split: option.splits if_splits)
    then have "length r \<le> length t" using IHe less_imp_le by blast
    with l1 l2 show "length r < length cs" by simp
  qed
  have m: "\<forall>cs ms r. parse_members (Suc f) cs = Some (ms, r) \<longrightarrow> length r < length cs"
  proof (intro allI impI)
    fix cs ms r
    assume p: "parse_members (Suc f) cs = Some (ms, r)"
    then obtain q t where sk: "skip_ws cs = q # t"
      by (cases "skip_ws cs") simp_all
    then have l0: "length t < length cs" by (rule skip_ws_Cons_length)
    from p sk have q: "q = CHR 0x22" by (simp split: if_splits)
    with p sk obtain k r1 where pc: "parse_chars t = Some (k, r1)"
      by (auto split: option.splits)
    then have l1: "length r1 < length t" by (rule parse_chars_shorter)
    from p sk q pc obtain c r2 where sk2: "skip_ws r1 = c # r2"
      by (cases "skip_ws r1") simp_all
    then have l2: "length r2 < length r1" by (rule skip_ws_Cons_length)
    from p sk q pc sk2 have c: "c = CHR '':''" by (simp split: if_splits)
    with p sk q pc sk2 obtain v r3 where pv: "parse_value f r2 = Some (v, r3)"
      by (auto split: option.splits)
    then have l3: "length r3 < length r2" by (rule IHv)
    from p sk q pc sk2 c pv obtain d r4 where sk4: "skip_ws r3 = d # r4"
      by (cases "skip_ws r3") simp_all
    then have l4: "length r4 < length r3" by (rule skip_ws_Cons_length)
    from p sk q pc sk2 c pv sk4 have "r = r4 \<or> (\<exists>ys. parse_members f r4 = Some (ys, r))"
      by (auto split: option.splits if_splits)
    then have "length r \<le> length r4" using IHm less_imp_le by blast
    with l0 l1 l2 l3 l4 show "length r < length cs" by simp
  qed
  from v e m show ?case by blast
qed

lemmas parse_value_shorter = parse_shorter [THEN conjunct1, rule_format]
lemmas parse_elements_shorter = parse_shorter [THEN conjunct2, THEN conjunct1, rule_format]
lemmas parse_members_shorter = parse_shorter [THEN conjunct2, THEN conjunct2, rule_format]

lemma parse_enough:
  "(\<forall>cs v r f. parse_value g cs = Some (v, r) \<longrightarrow> length cs - length r \<le> f
      \<longrightarrow> parse_value f cs = Some (v, r))
   \<and> (\<forall>cs vs r f. parse_elements g cs = Some (vs, r) \<longrightarrow> length cs - length r \<le> f
      \<longrightarrow> parse_elements f cs = Some (vs, r))
   \<and> (\<forall>cs ms r f. parse_members g cs = Some (ms, r) \<longrightarrow> length cs - length r \<le> f
      \<longrightarrow> parse_members f cs = Some (ms, r))"
proof (induction g)
  case 0
  show ?case by simp
next
  case (Suc g)
  then have IHv: "\<And>cs v r f. parse_value g cs = Some (v, r) \<Longrightarrow> length cs - length r \<le> f
      \<Longrightarrow> parse_value f cs = Some (v, r)"
    and IHe: "\<And>cs vs r f. parse_elements g cs = Some (vs, r) \<Longrightarrow> length cs - length r \<le> f
      \<Longrightarrow> parse_elements f cs = Some (vs, r)"
    and IHm: "\<And>cs ms r f. parse_members g cs = Some (ms, r) \<Longrightarrow> length cs - length r \<le> f
      \<Longrightarrow> parse_members f cs = Some (ms, r)"
    by blast+
  have v: "\<forall>cs v r f. parse_value (Suc g) cs = Some (v, r) \<longrightarrow> length cs - length r \<le> f
      \<longrightarrow> parse_value f cs = Some (v, r)"
  proof (intro allI impI)
    fix cs v r f
    assume p: "parse_value (Suc g) cs = Some (v, r)" and b: "length cs - length r \<le> f"
    from p have "length r < length cs" by (rule parse_value_shorter)
    with b obtain f' where f: "f = Suc f'" by (cases f) auto
    from p obtain c t where sk: "skip_ws cs = c # t"
      by (cases "skip_ws cs") simp_all
    then have lt: "length t < length cs" by (rule skip_ws_Cons_length)
    from lt b f have bt: "length t - length r \<le> f'" by simp
    show "parse_value f cs = Some (v, r)"
    proof (cases "c = CHR ''{''")
      case True
      with p sk obtain d t' where sk': "skip_ws t = d # t'"
        by (cases "skip_ws t") simp_all
      show ?thesis
      proof (cases "d = CHR ''}''")
        case True
        with p sk sk' \<open>c = CHR ''{''\<close> show ?thesis by (simp add: f)
      next
        case False
        with p sk sk' \<open>c = CHR ''{''\<close> obtain ms where pm: "parse_members g t = Some (ms, r)"
          and v: "v = JObject (make_object ms)"
          by (auto split: option.splits)
        from pm bt have "parse_members f' t = Some (ms, r)" by (rule IHm)
        with sk sk' False \<open>c = CHR ''{''\<close> v show ?thesis by (simp add: f)
      qed
    next
      case nb: False
      show ?thesis
      proof (cases "c = CHR ''[''")
        case True
        with p sk nb obtain d t' where sk': "skip_ws t = d # t'"
          by (cases "skip_ws t") simp_all
        show ?thesis
        proof (cases "d = CHR '']''")
          case True
          with p sk sk' nb \<open>c = CHR ''[''\<close> show ?thesis by (simp add: f)
        next
          case False
          with p sk sk' nb \<open>c = CHR ''[''\<close> obtain vs where pe: "parse_elements g t = Some (vs, r)"
            and v: "v = JArray vs"
            by (auto split: option.splits)
          from pe bt have "parse_elements f' t = Some (vs, r)" by (rule IHe)
          with sk sk' False nb \<open>c = CHR ''[''\<close> v show ?thesis by (simp add: f)
        qed
      next
        case na: False
        with p sk nb show ?thesis by (simp add: f)
      qed
    qed
  qed
  have e: "\<forall>cs vs r f. parse_elements (Suc g) cs = Some (vs, r) \<longrightarrow> length cs - length r \<le> f
      \<longrightarrow> parse_elements f cs = Some (vs, r)"
  proof (intro allI impI)
    fix cs vs r f
    assume p: "parse_elements (Suc g) cs = Some (vs, r)" and b: "length cs - length r \<le> f"
    from p have lr: "length r < length cs" by (rule parse_elements_shorter)
    with b obtain f' where f: "f = Suc f'" by (cases f) auto
    from p obtain x r1 where pv: "parse_value g cs = Some (x, r1)"
      by (auto split: option.splits)
    then have l1: "length r1 < length cs" by (rule parse_value_shorter)
    from p pv obtain c t where sk: "skip_ws r1 = c # t"
      by (cases "skip_ws r1") simp_all
    then have l2: "length t < length r1" by (rule skip_ws_Cons_length)
    from p pv sk have alt: "(c = CHR '']'' \<and> c \<noteq> CHR '','' \<and> r = t \<and> vs = [x])
        \<or> (c = CHR '','' \<and> (\<exists>ys. parse_elements g t = Some (ys, r) \<and> vs = x # ys))"
      by (auto split: option.splits if_splits)
    then have l3: "length r \<le> length t"
      using parse_elements_shorter less_imp_le by blast
    from l1 l2 l3 b f have "length cs - length r1 \<le> f'" by simp
    with pv have pv': "parse_value f' cs = Some (x, r1)" by (rule IHv)
    from l1 l2 l3 b f have bt: "length t - length r \<le> f'" by simp
    from alt show "parse_elements f cs = Some (vs, r)"
    proof
      assume "c = CHR '']'' \<and> c \<noteq> CHR '','' \<and> r = t \<and> vs = [x]"
      with pv' sk show ?thesis by (simp add: f)
    next
      assume "c = CHR '','' \<and> (\<exists>ys. parse_elements g t = Some (ys, r) \<and> vs = x # ys)"
      then obtain ys where c: "c = CHR '',''" and pe: "parse_elements g t = Some (ys, r)"
        and vs: "vs = x # ys" by blast
      from pe bt have "parse_elements f' t = Some (ys, r)" by (rule IHe)
      with pv' sk c vs show ?thesis by (simp add: f)
    qed
  qed
  have m: "\<forall>cs ms r f. parse_members (Suc g) cs = Some (ms, r) \<longrightarrow> length cs - length r \<le> f
      \<longrightarrow> parse_members f cs = Some (ms, r)"
  proof (intro allI impI)
    fix cs ms r f
    assume p: "parse_members (Suc g) cs = Some (ms, r)" and b: "length cs - length r \<le> f"
    from p have lr: "length r < length cs" by (rule parse_members_shorter)
    with b obtain f' where f: "f = Suc f'" by (cases f) auto
    from p obtain q t where sk: "skip_ws cs = q # t"
      by (cases "skip_ws cs") simp_all
    then have l0: "length t < length cs" by (rule skip_ws_Cons_length)
    from p sk have q: "q = CHR 0x22" by (simp split: if_splits)
    with p sk obtain k r1 where pc: "parse_chars t = Some (k, r1)"
      by (auto split: option.splits)
    then have l1: "length r1 < length t" by (rule parse_chars_shorter)
    from p sk q pc obtain c r2 where sk2: "skip_ws r1 = c # r2"
      by (cases "skip_ws r1") simp_all
    then have l2: "length r2 < length r1" by (rule skip_ws_Cons_length)
    from p sk q pc sk2 have c: "c = CHR '':''" by (simp split: if_splits)
    with p sk q pc sk2 obtain x r3 where pv: "parse_value g r2 = Some (x, r3)"
      by (auto split: option.splits)
    then have l3: "length r3 < length r2" by (rule parse_value_shorter)
    from p sk q pc sk2 c pv obtain d r4 where sk4: "skip_ws r3 = d # r4"
      by (cases "skip_ws r3") simp_all
    then have l4: "length r4 < length r3" by (rule skip_ws_Cons_length)
    from p sk q pc sk2 c pv sk4 have alt:
      "(d = CHR ''}'' \<and> d \<noteq> CHR '','' \<and> r = r4 \<and> ms = [(k, x)])
        \<or> (d = CHR '','' \<and> (\<exists>ys. parse_members g r4 = Some (ys, r) \<and> ms = (k, x) # ys))"
      by (auto split: option.splits if_splits)
    then have l5: "length r \<le> length r4"
      using parse_members_shorter less_imp_le by blast
    from l0 l1 l2 l3 l4 l5 b f have "length r2 - length r3 \<le> f'" by simp
    with pv have pv': "parse_value f' r2 = Some (x, r3)" by (rule IHv)
    from l0 l1 l2 l3 l4 l5 b f have bt: "length r4 - length r \<le> f'" by simp
    from alt show "parse_members f cs = Some (ms, r)"
    proof
      assume "d = CHR ''}'' \<and> d \<noteq> CHR '','' \<and> r = r4 \<and> ms = [(k, x)]"
      with sk q pc sk2 c pv' sk4 show ?thesis by (simp add: f)
    next
      assume "d = CHR '','' \<and> (\<exists>ys. parse_members g r4 = Some (ys, r) \<and> ms = (k, x) # ys)"
      then obtain ys where d: "d = CHR '',''" and pm: "parse_members g r4 = Some (ys, r)"
        and ms: "ms = (k, x) # ys" by blast
      from pm bt have "parse_members f' r4 = Some (ys, r)" by (rule IHm)
      with sk q pc sk2 c pv' sk4 d ms show ?thesis by (simp add: f)
    qed
  qed
  from v e m show ?case by blast
qed

lemma parse_value_fuel:
  assumes "length cs \<le> f"
  shows "parse_value f cs = parse_value (length cs) cs"
proof (cases "parse_value f cs")
  case (Some a)
  obtain v r where a: "a = (v, r)" by (cases a)
  have "length cs - length r \<le> length cs" by simp
  with Some a have "parse_value (length cs) cs = Some (v, r)"
    using parse_enough [of f] by blast
  with Some a show ?thesis by simp
next
  case None
  show ?thesis
  proof (cases "parse_value (length cs) cs")
    case None
    with \<open>parse_value f cs = None\<close> show ?thesis by simp
  next
    case (Some a)
    obtain v r where a: "a = (v, r)" by (cases a)
    from assms have "length cs - length r \<le> f" by simp
    with Some a have "parse_value f cs = Some (v, r)"
      using parse_enough [of "length cs"] by blast
    with None show ?thesis by simp
  qed
qed

text \<open>So \<open>JSON.parse\<close> is the descent with any bound from the length of the text on: no
  text is rejected for want of depth.\<close>

lemma JSON_parse_any_bound:
  assumes "length cs \<le> f"
  shows "JSON_parse cs =
           (case parse_value f cs of
              None \<Rightarrow> Inl SyntaxError
            | Some (v, rest) \<Rightarrow> if skip_ws rest = [] then Inr v else Inl SyntaxError)"
  using parse_value_fuel [OF assms] by (simp add: JSON_parse_def)

section \<open>Properties of loading and saving\<close>

lemma plain_js_notes: "plain_json (js_notes ns)"
  by (simp add: js_notes_def js_Note_def js_blocks_def js_Block_def js_BlockType_def
      list_all_iff)

lemma js_Block_inject: "js_Block b = js_Block b' \<Longrightarrow> b = b'"
  by (cases "type_block b"; cases "type_block b'")
    (simp_all add: js_Block_def js_BlockType_def)

lemma js_blocks_inject: "js_blocks bs = js_blocks bs' \<Longrightarrow> bs = bs'"
proof -
  assume "js_blocks bs = js_blocks bs'"
  then have "map js_Block bs = map js_Block bs'" by (simp add: js_blocks_def)
  moreover have "inj js_Block" by (rule injI) (rule js_Block_inject)
  ultimately show "bs = bs'" by (simp add: inj_map_eq_map)
qed

lemma js_Note_inject: "js_Note n = js_Note n' \<Longrightarrow> n = n'"
  by (auto simp: js_Note_def dest: js_blocks_inject)

lemma js_notes_inject: "js_notes ns = js_notes ns' \<Longrightarrow> ns = ns'"
proof -
  assume "js_notes ns = js_notes ns'"
  then have "map js_Note ns = map js_Note ns'" by (simp add: js_notes_def)
  moreover have "inj js_Note" by (rule injI) (rule js_Note_inject)
  ultimately show "ns = ns'" by (simp add: inj_map_eq_map)
qed

lemma JSON_stringify_notes_nonempty: "JSON_stringify (js_notes ns) \<noteq> []"
  by (simp add: js_notes_def)

text \<open>
  Claim C4. Loading right after saving gives the collection that was saved, for every
  collection, the empty one included: \<open>loadNotes\<close> returns the JavaScript value of the
  saved notes, and that value belongs to no other collection.
\<close>

theorem saveNotes_loadNotes_roundtrip:
  "loadNotes (saveNotes ns ls) = Inr (js_notes ns)
   \<and> (js_notes ns' = js_notes ns) = (ns' = ns)"
proof -
  have "JSON_parse (JSON_stringify (js_notes ns)) = Inr (js_notes ns)"
    using plain_js_notes by (rule JSON_parse_stringify)
  then have "loadNotes (saveNotes ns ls) = Inr (js_notes ns)"
    using JSON_stringify_notes_nonempty [of ns]
    by (simp add: loadNotes_def saveNotes_def getItem_def setItem_def)
  moreover have "(js_notes ns' = js_notes ns) = (ns' = ns)"
    using js_notes_inject by blast
  ultimately show ?thesis by simp
qed

lemma loadNotes_cases:
  "loadNotes ls =
     (case getItem ls LS_KEY of
        None \<Rightarrow> Inr (JArray [])
      | Some raw \<Rightarrow>
          if raw = [] then Inr (JArray [])
          else (case JSON_parse raw of Inl e \<Rightarrow> Inr (JArray []) | Inr v \<Rightarrow> Inr v))"
  by (simp add: loadNotes_def split: option.splits sum.splits)

text \<open>
  Claim C3, as the code has it. \<open>loadNotes\<close> never throws: it always returns a value.
  It returns the empty collection when the key is absent, when the stored string is
  empty, and when \<open>JSON.parse\<close> rejects the stored string. A stored string that
  \<open>JSON.parse\<close> accepts is returned as parsed, whether or not the value is an array of
  notes.
\<close>

theorem loadNotes_fails_soft:
  "(\<exists>v. loadNotes ls = Inr v)
   \<and> (getItem ls LS_KEY = None \<longrightarrow> loadNotes ls = Inr (JArray []))
   \<and> (getItem ls LS_KEY = Some [] \<longrightarrow> loadNotes ls = Inr (JArray []))
   \<and> (getItem ls LS_KEY = Some raw \<and> JSON_parse raw = Inl e \<longrightarrow> loadNotes ls = Inr (JArray []))
   \<and> (getItem ls LS_KEY = Some raw \<and> raw \<noteq> [] \<and> JSON_parse raw = Inr v
        \<longrightarrow> loadNotes ls = Inr v)"
  by (auto simp: loadNotes_cases split: option.splits sum.splits)

theorem loadNotes_fails_soft_witness:
  "loadNotes Map.empty = Inr (JArray [])
   \<and> loadNotes [LS_KEY \<mapsto> ''''] = Inr (JArray [])
   \<and> loadNotes [LS_KEY \<mapsto> ''{x}''] = Inr (JArray [])
   \<and> loadNotes [LS_KEY \<mapsto> ''[7]''] = Inr (JArray [JNumber 7])"
proof -
  have a: "JSON_parse ''{x}'' = Inl SyntaxError" by code_simp
  have b: "JSON_parse ''[7]'' = Inr (JArray [JNumber 7])" by code_simp
  show ?thesis
    using loadNotes_fails_soft [of Map.empty "''''" SyntaxError JNull]
      loadNotes_fails_soft [of "[LS_KEY \<mapsto> '''']" "''''" SyntaxError JNull]
      loadNotes_fails_soft [of "[LS_KEY \<mapsto> ''{x}'']" "''{x}''" SyntaxError JNull]
      loadNotes_fails_soft [of "[LS_KEY \<mapsto> ''[7]'']" "''[7]''" SyntaxError "JArray [JNumber 7]"]
      a b
    by (simp add: getItem_def)
qed

text \<open>The stored strings \<open>[1,2]\<close> and \<open>42\<close> are well-formed JSON but no array of
  notes; \<open>loadNotes\<close> returns the array of numbers and the number, not the empty
  collection.\<close>

theorem loadNotes_not_a_note_array_counterexample:
  "(\<forall>ns. JSON_parse ''[1,2]'' \<noteq> Inr (js_notes ns))
   \<and> loadNotes [LS_KEY \<mapsto> ''[1,2]''] = Inr (JArray [JNumber 1, JNumber 2])
   \<and> loadNotes [LS_KEY \<mapsto> ''[1,2]''] \<noteq> Inr (JArray [])
   \<and> (\<forall>ns. JSON_parse ''42'' \<noteq> Inr (js_notes ns))
   \<and> loadNotes [LS_KEY \<mapsto> ''42''] = Inr (JNumber 42)"
proof -
  have a: "JSON_parse ''[1,2]'' = Inr (JArray [JNumber 1, JNumber 2])" by code_simp
  have b: "JSON_parse ''42'' = Inr (JNumber 42)" by code_simp
  have c: "\<forall>ns. JArray [JNumber 1, JNumber 2] \<noteq> js_notes ns"
    by (auto simp: js_notes_def js_Note_def)
  have d: "\<forall>ns. JNumber 42 \<noteq> js_notes ns"
    by (simp add: js_notes_def)
  from a b c d show ?thesis
    by (simp add: loadNotes_def getItem_def)
qed

section \<open>Properties of the update of a note\<close>





text \<open>An update whose id no stored note carries changes nothing.\<close>

lemma handleUpdateNote_unknown_id:
  assumes "\<forall>n\<in>set (notes st). id_note n \<noteq> id_note snapshot"
  shows "handleUpdateNote snapshot now st = st"
proof -
  from assms have "map (\<lambda>n. if id_note n = id_note snapshot then snapshot\<lparr> updated := now \<rparr>
      else n) (notes st) = notes st"
    by (simp add: map_idI)
  then show ?thesis by (simp add: handleUpdateNote_def)
qed

end
